theory Spec2Isabelle
  imports Complex_Main "HOL-Library.Sublist"
begin

section \<open>Conventions of the model\<close>

text \<open>
  The theory embeds the retrieval pipeline of VTU EduMate: the embeddings module
  (\<open>cosineSimilarity\<close>), the index loader, the retriever, the prompt builder, the
  Gemini client, the chunker of the ingestion script and the \<open>/api/rag/ask\<close> route.

  \<open>cosineSimilarity\<close> computes in IEEE 754 double precision, with rounding, overflow,
  underflow and NaN. The scores that the retriever ranks and averages, and its
  thresholds, are real numbers. Numbers used as counts and indices (\<open>k\<close>, \<open>maxTokens\<close>,
  \<open>overlapWords\<close>) are integers, and the clamping that \<open>Array.prototype.slice\<close> applies
  to negative arguments is written out.
  A thrown \<open>Error\<close> is the value \<open>Inl (Error message)\<close>; a resolved promise is \<open>Inr\<close>.
  Services outside the repository (the file system, \<open>JSON.parse\<close>, the embedding call,
  the HTTP endpoint of the generation model, the clock) are parameters.
\<close>

datatype error = Error string

fun message :: "error \<Rightarrow> string" where
  "message (Error m) = m"

text \<open>\<open>Array.prototype.slice\<close>: a negative position counts from the end, and every
  position is clamped to the array.\<close>

definition js_index :: "nat \<Rightarrow> int \<Rightarrow> nat" where
  "js_index len i = (if i < 0 then nat (max (int len + i) 0) else min (nat i) len)"

definition slice_from :: "'a list \<Rightarrow> int \<Rightarrow> 'a list" where
  "slice_from xs start = drop (js_index (length xs) start) xs"

definition slice :: "'a list \<Rightarrow> int \<Rightarrow> int \<Rightarrow> 'a list" where
  "slice xs start stop =
     (let a = js_index (length xs) start; b = js_index (length xs) stop
      in take (b - a) (drop a xs))"

text \<open>Decimal rendering of a count, as a template literal prints it.\<close>

fun show_nat :: "nat \<Rightarrow> string" where
  "show_nat n =
     (if n < 10 then [''0123456789'' ! n]
      else show_nat (n div 10) @ [''0123456789'' ! (n mod 10)])"

declare show_nat.simps [simp del]

section \<open>IEEE 754 double precision\<close>

text \<open>
  A JavaScript number is a binary64 value: a finite number, an infinity, or NaN. The
  two zeros are identified (they compare equal, and the only division of
  \<open>cosineSimilarity\<close> is guarded by \<open>magnitude > 0\<close>). Every arithmetic operation, and
  \<open>Math.sqrt\<close>, yields the exact result rounded to the nearest double, ties to the even
  significand; a rounded result of magnitude \<open>2^1024\<close> or more is an infinity. \<open>Fin x\<close> is
  the finite number \<open>x\<close>: the operations return numbers on the double grid only, and
  what is proved of an argument \<open>Fin x\<close> holds for every real \<open>x\<close>, a double or not.
\<close>

datatype double = Fin real | PInf | NInf | NaN

text \<open>Round to the nearest integer, ties to even.\<close>

definition round_even :: "real \<Rightarrow> int" where
  "round_even y =
     (let f = \<lfloor>y\<rfloor>
      in if y - of_int f < 1 / 2 then f
         else if y - of_int f > 1 / 2 then f + 1
         else if even f then f else f + 1)"

text \<open>The exponent of the grid spacing at \<open>x\<close>: 52 below the binade of \<open>x\<close>, and \<open>-1074\<close>
  throughout the subnormal range.\<close>

definition ulp_exp :: "real \<Rightarrow> int" where
  "ulp_exp x = max \<lfloor>log 2 \<bar>x\<bar>\<rfloor> (- 1022) - 52"

definition rnd :: "real \<Rightarrow> real" where
  "rnd x = (if x = 0 then 0
            else of_int (round_even (x / 2 powi ulp_exp x)) * 2 powi ulp_exp x)"

text \<open>The bounds of binary64: the overflow threshold \<open>2^1024\<close>, the smallest normal number
  \<open>2^-1022\<close> and the spacing \<open>2^-1074\<close> of the subnormal numbers.\<close>

definition overflow_threshold :: real where
  "overflow_threshold = 2 powi 1024"

definition min_normal :: real where
  "min_normal = 2 powi (- 1022)"

definition grid_unit :: real where
  "grid_unit = 2 powi (- 1074)"

definition to_double :: "real \<Rightarrow> double" where
  "to_double x =
     (let r = rnd x
      in if r \<ge> overflow_threshold then PInf
         else if r \<le> - overflow_threshold then NInf else Fin r)"

fun fadd :: "double \<Rightarrow> double \<Rightarrow> double" where
  "fadd NaN y = NaN"
| "fadd x NaN = NaN"
| "fadd PInf NInf = NaN"
| "fadd NInf PInf = NaN"
| "fadd PInf y = PInf"
| "fadd x PInf = PInf"
| "fadd NInf y = NInf"
| "fadd x NInf = NInf"
| "fadd (Fin x) (Fin y) = to_double (x + y)"

text \<open>The sign of a product or quotient with an infinity.\<close>

definition signed_inf :: "bool \<Rightarrow> double" where
  "signed_inf positive = (if positive then PInf else NInf)"

fun fmul :: "double \<Rightarrow> double \<Rightarrow> double" where
  "fmul NaN y = NaN"
| "fmul x NaN = NaN"
| "fmul (Fin x) (Fin y) = to_double (x * y)"
| "fmul (Fin x) PInf = (if x = 0 then NaN else signed_inf (x > 0))"
| "fmul (Fin x) NInf = (if x = 0 then NaN else signed_inf (x < 0))"
| "fmul PInf (Fin y) = (if y = 0 then NaN else signed_inf (y > 0))"
| "fmul NInf (Fin y) = (if y = 0 then NaN else signed_inf (y < 0))"
| "fmul PInf PInf = PInf"
| "fmul NInf NInf = PInf"
| "fmul PInf NInf = NInf"
| "fmul NInf PInf = NInf"

text \<open>Division. A zero divisor is taken as \<open>+0\<close>; \<open>cosineSimilarity\<close> divides by a
  number greater than zero only.\<close>

fun fdiv :: "double \<Rightarrow> double \<Rightarrow> double" where
  "fdiv NaN y = NaN"
| "fdiv x NaN = NaN"
| "fdiv (Fin x) (Fin y) =
     (if y = 0 then (if x = 0 then NaN else signed_inf (x > 0)) else to_double (x / y))"
| "fdiv (Fin x) PInf = Fin 0"
| "fdiv (Fin x) NInf = Fin 0"
| "fdiv PInf (Fin y) = signed_inf (y \<ge> 0)"
| "fdiv NInf (Fin y) = signed_inf (y < 0)"
| "fdiv x y = NaN"

fun fsqrt :: "double \<Rightarrow> double" where
  "fsqrt NaN = NaN"
| "fsqrt NInf = NaN"
| "fsqrt PInf = PInf"
| "fsqrt (Fin x) = (if x < 0 then NaN else to_double (sqrt x))"

text \<open>\<open>x > 0\<close>: false for NaN.\<close>

fun fpositive :: "double \<Rightarrow> bool" where
  "fpositive (Fin x) = (x > 0)"
| "fpositive PInf = True"
| "fpositive x = False"

text \<open>The unit roundoff of binary64.\<close>

definition unit_roundoff :: real where
  "unit_roundoff = 1 / 2 ^ 53"

definition on_grid :: "real \<Rightarrow> bool" where
  "on_grid x = (\<exists>k::int. x = of_int k * grid_unit)"

section \<open>Embeddings: cosine similarity\<close>

text \<open>The body of the \<open>for\<close> loop of \<open>cosineSimilarity\<close> at index \<open>i\<close>, in double
  precision: each product and each sum is rounded.\<close>

definition cosine_step ::
  "double list \<Rightarrow> double list \<Rightarrow> nat \<Rightarrow> double \<times> double \<times> double
     \<Rightarrow> double \<times> double \<times> double" where
  "cosine_step a b i acc =
     (case acc of (dotProduct, normA, normB) \<Rightarrow>
        (fadd dotProduct (fmul (a ! i) (b ! i)),
         fadd normA (fmul (a ! i) (a ! i)),
         fadd normB (fmul (b ! i) (b ! i))))"

definition cosineSimilarity :: "double list \<Rightarrow> double list \<Rightarrow> error + double" where
  "cosineSimilarity a b =
     (if length a \<noteq> length b then Inl (Error ''Vectors must have same length'')
      else
        (case fold (cosine_step a b) [0..<length a] (Fin 0, Fin 0, Fin 0) of
           (dotProduct, normA, normB) \<Rightarrow>
             (let magnitude = fmul (fsqrt normA) (fsqrt normB)
              in Inr (if fpositive magnitude then fdiv dotProduct magnitude else Fin 0))))"

text \<open>The rounded sum of the products of the first \<open>n\<close> entries, as the loop of
  \<open>cosineSimilarity\<close> accumulates it from 0.\<close>

fun dsum :: "double list \<Rightarrow> double list \<Rightarrow> nat \<Rightarrow> double" where
  "dsum a b 0 = Fin 0"
| "dsum a b (Suc k) = fadd (dsum a b k) (fmul (a ! k) (b ! k))"

text \<open>Entries for which no product underflows and no sum of fewer than \<open>2^20\<close> products
  overflows: zero, or of magnitude between \<open>2^-500\<close> and \<open>2^500\<close>.\<close>

definition entry_min :: real where
  "entry_min = 2 powi (- 500)"

definition entry_max :: real where
  "entry_max = 2 powi 500"

definition moderate :: "double \<Rightarrow> bool" where
  "moderate d =
     (case d of
        Fin x \<Rightarrow> x = 0 \<or> (entry_min \<le> \<bar>x\<bar> \<and> \<bar>x\<bar> \<le> entry_max)
      | _ \<Rightarrow> False)"

fun val :: "double \<Rightarrow> real" where
  "val (Fin x) = x"
| "val d = 0"

section \<open>Scores of the retriever\<close>

text \<open>The retriever below ranks, counts and averages scores; its properties do not
  depend on how a score was rounded. There a score is a real number and \<open>cosineSimilarity\<close>
  is read in exact arithmetic: the same loop, guard and quotient as above, with the
  operations of the reals.\<close>

definition cosine_step_exact ::
  "real list \<Rightarrow> real list \<Rightarrow> nat \<Rightarrow> real \<times> real \<times> real \<Rightarrow> real \<times> real \<times> real" where
  "cosine_step_exact a b i acc =
     (case acc of (dotProduct, normA, normB) \<Rightarrow>
        (dotProduct + a ! i * b ! i, normA + a ! i * a ! i, normB + b ! i * b ! i))"

definition cosineSimilarity_exact :: "real list \<Rightarrow> real list \<Rightarrow> error + real" where
  "cosineSimilarity_exact a b =
     (if length a \<noteq> length b then Inl (Error ''Vectors must have same length'')
      else
        (case fold (cosine_step_exact a b) [0..<length a] (0, 0, 0) of
           (dotProduct, normA, normB) \<Rightarrow>
             (let magnitude = sqrt normA * sqrt normB
              in Inr (if magnitude > 0 then dotProduct / magnitude else 0))))"

section \<open>Index store\<close>

record ChunkMetadata =
  md_source :: string
  md_page :: "nat option"
  md_unit :: "string option"
  md_chunk_id :: string
  md_created_at :: string

record IndexedChunk =
  ck_id :: string
  ck_text :: string
  ck_metadata :: ChunkMetadata
  ck_embedding :: "real list"

record IndexData =
  chunks :: "IndexedChunk list"
  idx_driver :: string
  idx_chunk_count :: nat

text \<open>
  \<open>loadJsonIndex\<close> reads \<open>rag_index/index.json\<close> and parses it inside one \<open>try\<close>; any
  failure is caught and turned into \<open>null\<close>. The file is \<open>None\<close> when \<open>readFile\<close> rejects,
  and \<open>parse\<close> stands for \<open>JSON.parse\<close> followed by the read of \<open>indexData.chunks.length\<close>:
  it is \<open>None\<close> where either throws.
\<close>

definition loadJsonIndex ::
  "(string \<Rightarrow> IndexData option) \<Rightarrow> string option \<Rightarrow> IndexData option" where
  "loadJsonIndex parse file =
     (case file of
        None \<Rightarrow> None
      | Some data \<Rightarrow> (case parse data of None \<Rightarrow> None | Some indexData \<Rightarrow> Some indexData))"

text \<open>The \<open>switch\<close> of \<open>loadIndex\<close>; the faiss and chroma loaders fall back to the JSON one.\<close>

definition loadIndex_switch ::
  "string \<Rightarrow> (string \<Rightarrow> IndexData option) \<Rightarrow> string option \<Rightarrow> error + IndexData option" where
  "loadIndex_switch driver parse file =
     (if driver = ''json'' then Inr (loadJsonIndex parse file)
      else if driver = ''faiss'' then Inr (loadJsonIndex parse file)
      else if driver = ''chroma'' then Inr (loadJsonIndex parse file)
      else Inl (Error (''Unsupported index driver: '' @ driver)))"

definition loadIndex ::
  "string \<Rightarrow> (string \<Rightarrow> IndexData option) \<Rightarrow> string option \<Rightarrow> IndexData option" where
  "loadIndex driver parse file =
     (case loadIndex_switch driver parse file of Inl e \<Rightarrow> None | Inr r \<Rightarrow> r)"

section \<open>Retriever\<close>

record RetrievalResult =
  rr_id :: string
  score :: real
  rr_metadata :: ChunkMetadata
  rr_text :: string

record RetrievalResponse =
  results :: "RetrievalResult list"
  confidence :: bool
  query :: string
  total_chunks :: nat
  search_time_ms :: nat
  top_k :: int
  min_similarity :: real
  average_score :: real

text \<open>What the retriever reads from its surroundings: the driver name, the index file,
  the parser, the embedding of a query, the threshold \<open>RAG_MIN_SIM\<close>, the default
  \<open>RAG_TOP_K\<close> and the time the search took.\<close>

record rag_env =
  RAG_INDEX_DRIVER :: string
  index_file :: "string option"
  json_parse :: "string \<Rightarrow> IndexData option"
  embedQuery :: "string \<Rightarrow> real list"
  RAG_MIN_SIM :: real
  RAG_TOP_K :: int
  elapsed_ms :: nat

record similarity =
  sim_index :: nat
  sim_chunk :: IndexedChunk
  sim_score :: real

text \<open>\<open>indexData.chunks.map(...)\<close>: the first chunk whose embedding has another length
  than the query's makes \<open>cosineSimilarity\<close> throw, and the whole call rejects.\<close>

fun similarities :: "real list \<Rightarrow> nat \<Rightarrow> IndexedChunk list \<Rightarrow> error + similarity list" where
  "similarities q i [] = Inr []"
| "similarities q i (c # cs) =
     (case cosineSimilarity_exact q (ck_embedding c) of
        Inl e \<Rightarrow> Inl e
      | Inr s \<Rightarrow>
          (case similarities q (Suc i) cs of
             Inl e \<Rightarrow> Inl e
           | Inr rest \<Rightarrow> Inr (\<lparr>sim_index = i, sim_chunk = c, sim_score = s\<rparr> # rest)))"

text \<open>\<open>similarities.sort((a, b) => b.score - a.score)\<close>: a stable sort, larger scores first.\<close>

definition sort_desc :: "similarity list \<Rightarrow> similarity list" where
  "sort_desc sims = sort_key (\<lambda>s. - sim_score s) sims"

definition averageScore :: "real list \<Rightarrow> real" where
  "averageScore scores =
     (if length scores > 0 then foldl (\<lambda>sum s. sum + s) 0 scores / real (length scores) else 0)"

definition format_result :: "similarity \<Rightarrow> RetrievalResult" where
  "format_result r =
     \<lparr>rr_id = ck_id (sim_chunk r), score = sim_score r,
      rr_metadata = ck_metadata (sim_chunk r), rr_text = ck_text (sim_chunk r)\<rparr>"

definition retrieve :: "rag_env \<Rightarrow> string \<Rightarrow> int \<Rightarrow> error + RetrievalResponse" where
  "retrieve env question k =
     (case loadIndex (RAG_INDEX_DRIVER env) (json_parse env) (index_file env) of
        None \<Rightarrow> Inl (Error ''No RAG index found. Please run the ingestion script first.'')
      | Some indexData \<Rightarrow>
          (case similarities (embedQuery env question) 0 (chunks indexData) of
             Inl e \<Rightarrow> Inl e
           | Inr sims \<Rightarrow>
               (let topResults = slice (sort_desc sims) 0 k;
                    avg = averageScore (map sim_score topResults)
                in Inr \<lparr>results = map format_result topResults,
                        confidence = (avg \<ge> RAG_MIN_SIM env),
                        query = question,
                        total_chunks = length (chunks indexData),
                        search_time_ms = elapsed_ms env,
                        top_k = k,
                        min_similarity = RAG_MIN_SIM env,
                        average_score = avg\<rparr>)))"

section \<open>Prompt builder\<close>

definition newline :: string where
  "newline = [CHR 0x0A]"

record ContextSection =
  contextText :: string
  sources :: "string list"
  estimatedTokens :: int

text \<open>The source id of a block: the source, and \<open>:p<page>\<close> when the page is set and
  not zero (a missing page and page 0 are both falsy).\<close>

definition sourceId :: "RetrievalResult \<Rightarrow> string" where
  "sourceId chunk =
     md_source (rr_metadata chunk) @
     (case md_page (rr_metadata chunk) of
        None \<Rightarrow> []
      | Some p \<Rightarrow> if p = 0 then [] else '':p'' @ show_nat p)"

definition page_or_na :: "nat option \<Rightarrow> string" where
  "page_or_na page = (case page of None \<Rightarrow> ''N/A'' | Some p \<Rightarrow> if p = 0 then ''N/A'' else show_nat p)"

definition unit_or_na :: "string option \<Rightarrow> string" where
  "unit_or_na u = (case u of None \<Rightarrow> ''N/A'' | Some v \<Rightarrow> if v = [] then ''N/A'' else v)"

text \<open>The text of one context block, \<open>chunkText\<close> in the loop of \<open>buildContextSection\<close>.
  \<open>toFixed\<close> stands for \<open>Number.prototype.toFixed(3)\<close>.\<close>

definition context_block :: "(real \<Rightarrow> string) \<Rightarrow> bool \<Rightarrow> RetrievalResult \<Rightarrow> string" where
  "context_block toFixed withMetadata chunk =
     (let sourceHeader = ''['' @ sourceId chunk @ '']'' @ newline;
          metadataLine =
            (if withMetadata
             then ''Source: '' @ md_source (rr_metadata chunk)
                  @ '', Page: '' @ page_or_na (md_page (rr_metadata chunk))
                  @ '', Unit: '' @ unit_or_na (md_unit (rr_metadata chunk))
                  @ '', Score: '' @ toFixed (score chunk) @ newline
             else [])
      in sourceHeader @ metadataLine @ rr_text chunk @ newline @ newline)"

text \<open>\<open>Math.ceil(chunkText.length / 4)\<close>.\<close>

definition block_tokens :: "(real \<Rightarrow> string) \<Rightarrow> bool \<Rightarrow> RetrievalResult \<Rightarrow> int" where
  "block_tokens toFixed withMetadata chunk =
     \<lceil>real (length (context_block toFixed withMetadata chunk)) / 4\<rceil>"

text \<open>The \<open>for\<close> loop of \<open>buildContextSection\<close> from index \<open>i\<close> on; \<open>break\<close> returns the
  accumulated section.\<close>

fun context_loop ::
  "(real \<Rightarrow> string) \<Rightarrow> int \<Rightarrow> bool \<Rightarrow> nat \<Rightarrow> RetrievalResult list \<Rightarrow> ContextSection
     \<Rightarrow> ContextSection" where
  "context_loop toFixed maxTokens withMetadata i [] acc = acc"
| "context_loop toFixed maxTokens withMetadata i (chunk # rest) acc =
     (let chunkTokens = block_tokens toFixed withMetadata chunk
      in if estimatedTokens acc + chunkTokens > maxTokens \<and> i > 0 then acc
         else context_loop toFixed maxTokens withMetadata (Suc i) rest
                \<lparr>contextText = contextText acc @ context_block toFixed withMetadata chunk,
                 sources = sources acc @ [sourceId chunk],
                 estimatedTokens = estimatedTokens acc + chunkTokens\<rparr>)"

definition context_header :: string where
  "context_header = ''CONTEXT INFORMATION:'' @ newline @ newline"

definition buildContextSection ::
  "(real \<Rightarrow> string) \<Rightarrow> RetrievalResult list \<Rightarrow> int \<Rightarrow> bool \<Rightarrow> string \<Rightarrow> ContextSection" where
  "buildContextSection toFixed retrieved maxTokens withMetadata style =
     context_loop toFixed maxTokens withMetadata 0 retrieved
       \<lparr>contextText = context_header, sources = [], estimatedTokens = 50\<rparr>"

record PromptOptions =
  maxContextTokens :: "int option"
  includeMetadata :: "bool option"
  answerFormat :: "string option"
  citationStyle :: "string option"

record BuiltPrompt =
  systemPrompt :: string
  userPrompt :: string
  fullPrompt :: string
  contextSources :: "string list"
  tokenEstimate :: int

text \<open>The two text templates of the prompt builder, \<open>buildSystemPrompt\<close> and
  \<open>buildUserPrompt\<close>, are parameters: they only wrap the context section in fixed text.\<close>

record prompt_templates =
  buildSystemPrompt :: "string \<Rightarrow> string \<Rightarrow> string"
  buildUserPrompt :: "string \<Rightarrow> string \<Rightarrow> string \<Rightarrow> string"
  toFixed3 :: "real \<Rightarrow> string"

definition buildPrompt ::
  "prompt_templates \<Rightarrow> RetrievalResult list \<Rightarrow> string \<Rightarrow> PromptOptions \<Rightarrow> BuiltPrompt" where
  "buildPrompt tpl retrievedChunks question options =
     (let maxTokens = (case maxContextTokens options of None \<Rightarrow> 4000 | Some m \<Rightarrow> m);
          withMetadata = (case includeMetadata options of None \<Rightarrow> True | Some b \<Rightarrow> b);
          format = (case answerFormat options of None \<Rightarrow> ''detailed'' | Some f \<Rightarrow> f);
          style = (case citationStyle options of None \<Rightarrow> ''vtu'' | Some c \<Rightarrow> c);
          system = buildSystemPrompt tpl format style;
          section = buildContextSection (toFixed3 tpl) retrievedChunks maxTokens withMetadata style;
          user = buildUserPrompt tpl question (contextText section) format
      in \<lparr>systemPrompt = system, userPrompt = user,
          fullPrompt = system @ newline @ newline @ user,
          contextSources = sources section,
          tokenEstimate = estimatedTokens section\<rparr>)"

section \<open>Strings: white space, trimming, splitting, joining\<close>

text \<open>The characters that \<open>\s\<close> and \<open>String.prototype.trim\<close> treat as white space,
  within ASCII: space, tab, line feed, vertical tab, form feed, carriage return.\<close>

definition is_space :: "char \<Rightarrow> bool" where
  "is_space c = (c = CHR '' '' \<or> c = CHR 0x09 \<or> c = CHR 0x0A \<or> c = CHR 0x0B
                 \<or> c = CHR 0x0C \<or> c = CHR 0x0D)"

definition is_sentence_end :: "char \<Rightarrow> bool" where
  "is_sentence_end c = (c = CHR ''.'' \<or> c = CHR ''!'' \<or> c = CHR ''?'')"

definition trim :: "string \<Rightarrow> string" where
  "trim s = rev (dropWhile is_space (rev (dropWhile is_space s)))"

text \<open>\<open>s.split(/[...]+/)\<close> for a character class \<open>P\<close>: the pieces between the maximal
  runs of characters of the class. A run at the start or at the end leaves an empty
  piece there, and the empty string splits into one empty piece.\<close>

function split_runs :: "(char \<Rightarrow> bool) \<Rightarrow> string \<Rightarrow> string list" where
  "split_runs P [] = [[]]"
| "split_runs P (c # cs) =
     (if P c then [] # split_runs P (dropWhile P cs)
      else (let r = split_runs P cs in (c # hd r) # tl r))"
  by pat_completeness auto
termination
  by (relation "measure (\<lambda>(P, s). length s)") (auto simp: length_dropWhile_le less_Suc_eq_le)

text \<open>\<open>words.join(sep)\<close>.\<close>

fun join :: "string \<Rightarrow> string list \<Rightarrow> string" where
  "join sep [] = []"
| "join sep [w] = w"
| "join sep (w # ws) = w @ sep @ join sep ws"

section \<open>Generation client\<close>

record candidate =
  cand_parts :: "string list option"
  finishReason :: "string option"

text \<open>What one HTTP exchange with the generation endpoint gives: \<open>fetch\<close> or the
  reading of the body throws, the status is not ok (status and body text), or the body parses to an object whose
  \<open>candidates\<close> may be missing. \<open>cand_parts\<close> is \<open>None\<close> when \<open>content\<close> or
  \<open>content.parts\<close> is missing; a part is its \<open>text\<close>.\<close>

datatype api_reply =
  FetchFailed error
| HttpError nat string
| HttpOk "candidate list option"

definition callGeminiAPI :: "api_reply \<Rightarrow> error + string" where
  "callGeminiAPI reply =
     (case reply of
        FetchFailed e \<Rightarrow> Inl e
      | HttpError code errorText \<Rightarrow>
          Inl (Error (''Gemini API error ('' @ show_nat code @ ''): '' @ errorText))
      | HttpOk candidates \<Rightarrow>
          (case candidates of
             None \<Rightarrow> Inl (Error ''No candidates returned from Gemini API'')
           | Some [] \<Rightarrow> Inl (Error ''No candidates returned from Gemini API'')
           | Some (cand # _) \<Rightarrow>
               (case cand_parts cand of
                  None \<Rightarrow> Inl (Error ''Invalid candidate structure in Gemini response'')
                | Some [] \<Rightarrow> Inl (Error ''Invalid candidate structure in Gemini response'')
                | Some (generatedText # _) \<Rightarrow>
                    if finishReason cand = Some ''SAFETY''
                    then Inl (Error ''Response blocked by safety filters'')
                    else if generatedText = [] \<or> length (trim generatedText) = 0
                    then Inl (Error ''Empty response from Gemini API'')
                    else Inr (trim generatedText))))"

text \<open>The client's effects are recorded in a trace: a call of the endpoint with a model
  and a prompt, and a pause of so many milliseconds. The endpoint is a function of the
  model, the prompt and the number of calls made before.\<close>

datatype event = ApiCall string string | Sleep nat

fun is_call :: "event \<Rightarrow> bool" where
  "is_call (ApiCall m p) = True"
| "is_call (Sleep d) = False"

definition api_calls :: "event list \<Rightarrow> nat" where
  "api_calls trace = length (filter is_call trace)"

type_synonym gemini_api = "string \<Rightarrow> string \<Rightarrow> nat \<Rightarrow> api_reply"

text \<open>The \<open>for\<close> loop of \<open>generateWithModel\<close> from \<open>attempt\<close> on. Every thrown error is
  caught and the same call is made again, after \<open>2^(attempt - 1) * 1000\<close> ms, while
  attempts are left; then the last error is thrown.\<close>

function retry_loop ::
  "gemini_api \<Rightarrow> string \<Rightarrow> string \<Rightarrow> nat \<Rightarrow> nat \<Rightarrow> error option \<Rightarrow> event list
     \<Rightarrow> (error + string) \<times> event list" where
  "retry_loop api model prompt maxRetries attempt lastError trace =
     (if attempt \<le> maxRetries then
        (case callGeminiAPI (api model prompt (api_calls trace)) of
           Inr response \<Rightarrow> (Inr response, trace @ [ApiCall model prompt])
         | Inl e \<Rightarrow>
             retry_loop api model prompt maxRetries (Suc attempt) (Some e)
               (trace @ [ApiCall model prompt]
                  @ (if attempt < maxRetries then [Sleep (2 ^ (attempt - 1) * 1000)] else [])))
      else
        (Inl (case lastError of Some e \<Rightarrow> e | None \<Rightarrow> Error ''Maximum retry attempts exceeded''),
         trace))"
  by pat_completeness auto
termination
  by (relation "measure (\<lambda>(api, model, prompt, maxRetries, attempt, lastError, trace).
                   Suc maxRetries - attempt)") auto

declare retry_loop.simps [simp del]

definition generateWithModel ::
  "gemini_api \<Rightarrow> string \<Rightarrow> string \<Rightarrow> nat \<Rightarrow> event list \<Rightarrow> (error + string) \<times> event list" where
  "generateWithModel api model prompt maxRetries trace =
     retry_loop api model prompt maxRetries 1 None trace"

record gemini_env =
  GEMINI_API_KEY :: "string option"
  GEN_MODEL :: string
  GEN_MODEL_FALLBACK :: string
  endpoint :: gemini_api

text \<open>An \<open>Error\<close> inside a template literal prints as \<open>Error: message\<close>.\<close>

fun error_to_string :: "error \<Rightarrow> string" where
  "error_to_string (Error m) = (if m = [] then ''Error'' else ''Error: '' @ m)"

definition generateFromPrompt ::
  "gemini_env \<Rightarrow> string \<Rightarrow> event list \<Rightarrow> (error + string) \<times> event list" where
  "generateFromPrompt genv prompt trace =
     (if GEMINI_API_KEY genv = None \<or> GEMINI_API_KEY genv = Some []
      then (Inl (Error ''GEMINI_API_KEY environment variable is required for RAG functionality''),
            trace)
      else
        (case generateWithModel (endpoint genv) (GEN_MODEL genv) prompt 3 trace of
           (Inr response, trace1) \<Rightarrow> (Inr response, trace1)
         | (Inl primaryError, trace1) \<Rightarrow>
             (case generateWithModel (endpoint genv) (GEN_MODEL_FALLBACK genv) prompt 3 trace1 of
                (Inr response, trace2) \<Rightarrow> (Inr response, trace2)
              | (Inl fallbackError, trace2) \<Rightarrow>
                  (Inl (Error (''Generation failed: '' @ error_to_string fallbackError)),
                   trace2))))"

section \<open>Chunker of the ingestion script\<close>

record FileMetadata =
  filename :: string
  filepath :: string

record DocumentChunk =
  dc_id :: string
  dc_text :: string
  dc_metadata :: ChunkMetadata

text \<open>\<open>createChunk\<close> reads the clock and derives the unit from the file name with
  \<open>parseFilename\<close>; both are parameters.\<close>

record ingest_env =
  now :: string
  parseUnit :: "string \<Rightarrow> string option"

definition createChunk :: "ingest_env \<Rightarrow> string \<Rightarrow> FileMetadata \<Rightarrow> nat \<Rightarrow> DocumentChunk" where
  "createChunk ienv txt file index =
     \<lparr>dc_id = filename file @ ''_chunk_'' @ show_nat index,
      dc_text = txt,
      dc_metadata = \<lparr>md_source = filename file, md_page = None,
                     md_unit = parseUnit ienv (filename file),
                     md_chunk_id = filename file @ ''_'' @ show_nat index,
                     md_created_at = now ienv\<rparr>\<rparr>"

definition getOverlapText :: "string \<Rightarrow> int \<Rightarrow> string" where
  "getOverlapText txt overlapWords =
     (let words = split_runs is_space txt
      in if int (length words) \<le> overlapWords then txt
         else join '' '' (slice_from words (- overlapWords)))"

definition countWords :: "string \<Rightarrow> nat" where
  "countWords txt = length (filter (\<lambda>word. length word > 0) (split_runs is_space txt))"

record chunk_state =
  done_chunks :: "DocumentChunk list"
  currentChunk :: string
  currentWordCount :: int
  chunkIndex :: nat

text \<open>The body of the \<open>for\<close> loop of \<open>chunkText\<close> for the sentence piece \<open>s\<close>.\<close>

definition chunk_step ::
  "ingest_env \<Rightarrow> FileMetadata \<Rightarrow> int \<Rightarrow> int \<Rightarrow> string \<Rightarrow> chunk_state \<Rightarrow> chunk_state" where
  "chunk_step ienv file chunkSizeWords overlapWords s st =
     (let sentence = trim s @ ''.'';
          sentenceWords = int (length (split_runs is_space sentence))
      in if currentWordCount st + sentenceWords > chunkSizeWords \<and> length (currentChunk st) > 0
         then
           (let overlapText = getOverlapText (currentChunk st) overlapWords;
                next_chunk = overlapText @ (if overlapText \<noteq> [] then '' '' else []) @ sentence
            in \<lparr>done_chunks = done_chunks st
                   @ [createChunk ienv (trim (currentChunk st)) file (chunkIndex st)],
                currentChunk = next_chunk,
                currentWordCount = int (countWords next_chunk),
                chunkIndex = Suc (chunkIndex st)\<rparr>)
         else
           st\<lparr>currentChunk := currentChunk st @ (if currentChunk st \<noteq> [] then '' '' else [])
                                @ sentence,
              currentWordCount := currentWordCount st + sentenceWords\<rparr>)"

definition chunkText ::
  "ingest_env \<Rightarrow> string \<Rightarrow> FileMetadata \<Rightarrow> int \<Rightarrow> int \<Rightarrow> DocumentChunk list" where
  "chunkText ienv txt file chunkSizeWords overlapWords =
     (let sentences = filter (\<lambda>s. length (trim s) > 0) (split_runs is_sentence_end txt);
          st = fold (chunk_step ienv file chunkSizeWords overlapWords) sentences
                 \<lparr>done_chunks = [], currentChunk = [], currentWordCount = 0, chunkIndex = 0\<rparr>
      in if length (trim (currentChunk st)) > 0
         then done_chunks st @ [createChunk ienv (trim (currentChunk st)) file (chunkIndex st)]
         else done_chunks st)"

text \<open>The words of a chunk, as \<open>split(/\s+/)\<close> gives them.\<close>

definition chunk_words :: "DocumentChunk \<Rightarrow> string list" where
  "chunk_words c = split_runs is_space (dc_text c)"

section \<open>The route \<open>/api/rag/ask\<close>\<close>

record RagRequest =
  rq_question :: "string option"
  rq_scheme :: "string option"
  rq_useRag :: "bool option"

record citation =
  cit_source :: string
  cit_page :: "nat option"
  cit_chunk_id :: string

record source_info =
  src_source :: string
  src_page :: "nat option"
  src_unit :: "string option"
  src_chunk_id :: string
  src_score :: real

record debug_info =
  scores :: "real list"
  retrieval_confidence :: bool
  dbg_search_time_ms :: nat
  dbg_total_chunks :: nat
  dbg_method :: string

record RagResponse =
  answer :: string
  citations :: "citation list"
  resp_sources :: "source_info list"
  debug :: "debug_info option"
  resp_error :: "string option"
  status :: nat

text \<open>
  What the route reads from its surroundings. \<open>answer_from\<close> stands for steps 2 to 4 of
  \<open>handleRagPipeline\<close> (\<open>buildPrompt\<close>, \<open>generateStructuredResponse\<close>,
  \<open>processGeminiResponse\<close>): from the retrieved results and the question it gives the
  answer, the citations and the sources, or it throws. \<open>heuristic\<close> stands for
  \<open>getAiResponse\<close> of the older system: the answer, or the error text of a failure.
\<close>

record route_env =
  ENABLE_RAG :: bool
  retrieval :: rag_env
  answer_from :: "RetrievalResult list \<Rightarrow> string \<Rightarrow> error + string \<times> citation list \<times> source_info list"
  heuristic :: "string \<Rightarrow> string \<Rightarrow> string + string"

definition validateRequest :: "RagRequest \<Rightarrow> string option" where
  "validateRequest body =
     (case rq_question body of
        None \<Rightarrow> Some ''Question is required and must be a string''
      | Some q \<Rightarrow>
          if q = [] then Some ''Question is required and must be a string''
          else if length (trim q) = 0 then Some ''Question cannot be empty''
          else if length q > 2000 then Some ''Question is too long (max 2000 characters)''
          else None)"

definition handleRagPipeline :: "route_env \<Rightarrow> string \<Rightarrow> error + RagResponse" where
  "handleRagPipeline renv q =
     (case retrieve (retrieval renv) q (RAG_TOP_K (retrieval renv)) of
        Inl e \<Rightarrow> Inl e
      | Inr retrievalResult \<Rightarrow>
          if \<not> confidence retrievalResult then
            Inr \<lparr>answer = ''Not found in VTU context.'', citations = [], resp_sources = [],
                 debug = Some \<lparr>scores = map score (results retrievalResult),
                                retrieval_confidence = False,
                                dbg_search_time_ms = search_time_ms retrievalResult,
                                dbg_total_chunks = total_chunks retrievalResult,
                                dbg_method = ''rag''\<rparr>,
                 resp_error = None, status = 200\<rparr>
          else
            (case answer_from renv (results retrievalResult) q of
               Inl e \<Rightarrow> Inl e
             | Inr (ans, cits, srcs) \<Rightarrow>
                 Inr \<lparr>answer = ans, citations = cits, resp_sources = srcs,
                      debug = Some \<lparr>scores = map score (results retrievalResult),
                                     retrieval_confidence = confidence retrievalResult,
                                     dbg_search_time_ms = search_time_ms retrievalResult,
                                     dbg_total_chunks = total_chunks retrievalResult,
                                     dbg_method = ''rag''\<rparr>,
                      resp_error = None, status = 200\<rparr>))"

definition handleHeuristicFallback :: "route_env \<Rightarrow> RagRequest \<Rightarrow> error option \<Rightarrow> RagResponse" where
  "handleHeuristicFallback renv body ragError =
     (case heuristic renv (case rq_question body of None \<Rightarrow> [] | Some q \<Rightarrow> q)
             (case rq_scheme body of None \<Rightarrow> ''2022'' | Some s \<Rightarrow> if s = [] then ''2022'' else s) of
        Inr ans \<Rightarrow>
          \<lparr>answer = ans, citations = [], resp_sources = [],
           debug = Some \<lparr>scores = [], retrieval_confidence = True, dbg_search_time_ms = 0,
                          dbg_total_chunks = 0, dbg_method = ''heuristic_fallback''\<rparr>,
           resp_error = None, status = 200\<rparr>
      | Inl fallbackError \<Rightarrow>
          \<lparr>answer = ''Sorry, I encountered an error while processing your question. Please try again later.'',
           citations = [], resp_sources = [],
           debug = Some \<lparr>scores = [], retrieval_confidence = False, dbg_search_time_ms = 0,
                          dbg_total_chunks = 0, dbg_method = ''heuristic_fallback''\<rparr>,
           resp_error = Some (''RAG failed: ''
              @ (case ragError of None \<Rightarrow> ''Unknown RAG error''
                 | Some e \<Rightarrow> if message e = [] then ''Unknown RAG error'' else message e)
              @ ''. Fallback failed: '' @ fallbackError),
           status = 500\<rparr>)"

definition POST :: "route_env \<Rightarrow> RagRequest \<Rightarrow> RagResponse" where
  "POST renv body =
     (case validateRequest body of
        Some err \<Rightarrow>
          \<lparr>answer = err, citations = [], resp_sources = [], debug = None,
           resp_error = Some err, status = 400\<rparr>
      | None \<Rightarrow>
          (let shouldUseRag = (rq_useRag body = Some True \<or> ENABLE_RAG renv)
           in if \<not> shouldUseRag then handleHeuristicFallback renv body None
              else
                (case handleRagPipeline renv (case rq_question body of None \<Rightarrow> [] | Some q \<Rightarrow> q) of
                   Inr response \<Rightarrow> response
                 | Inl ragError \<Rightarrow> handleHeuristicFallback renv body (Some ragError))))"

section \<open>Concrete inputs for the runs below\<close>

definition demo_chunk :: "string \<Rightarrow> real list \<Rightarrow> IndexedChunk" where
  "demo_chunk name v =
     \<lparr>ck_id = name, ck_text = name,
      ck_metadata = \<lparr>md_source = name, md_page = None, md_unit = None,
                     md_chunk_id = name, md_created_at = []\<rparr>,
      ck_embedding = v\<rparr>"

definition demo_index :: IndexData where
  "demo_index = \<lparr>chunks = [demo_chunk ''os'' [0, 1], demo_chunk ''trees'' [1, 0]],
                 idx_driver = ''json'', idx_chunk_count = 2\<rparr>"

definition demo_env :: rag_env where
  "demo_env = \<lparr>RAG_INDEX_DRIVER = ''json'', index_file = Some ''{}'',
               json_parse = (\<lambda>s. Some demo_index), embedQuery = (\<lambda>q. [1, 0]),
               RAG_MIN_SIM = 1 / 2, RAG_TOP_K = 5, elapsed_ms = 0\<rparr>"

definition strict_env :: rag_env where
  "strict_env = demo_env\<lparr>RAG_MIN_SIM := 9 / 10\<rparr>"

definition demo_route :: route_env where
  "demo_route = \<lparr>ENABLE_RAG = True, retrieval = strict_env,
                 answer_from = (\<lambda>rs q. Inr (''generated'', [], [])),
                 heuristic = (\<lambda>q s. Inr ''heuristic'')\<rparr>"

definition demo_body :: RagRequest where
  "demo_body = \<lparr>rq_question = Some ''trees?'', rq_scheme = None, rq_useRag = None\<rparr>"

definition demo_result :: "string \<Rightarrow> string \<Rightarrow> real \<Rightarrow> RetrievalResult" where
  "demo_result name txt s =
     \<lparr>rr_id = name, score = s,
      rr_metadata = \<lparr>md_source = name, md_page = None, md_unit = None,
                     md_chunk_id = name, md_created_at = []\<rparr>,
      rr_text = txt\<rparr>"

definition big_result :: "nat \<Rightarrow> RetrievalResult" where
  "big_result n = demo_result ''big'' (replicate (4 * n) CHR ''x'') 1"

definition demo_toFixed :: "real \<Rightarrow> string" where
  "demo_toFixed s = ''0.000''"

text \<open>The trace of \<open>n\<close> attempts in a row on one model: a call, then for each further
  attempt a pause of 1000, 2000, 4000, ... ms and a call.\<close>

fun backoff_attempts :: "string \<Rightarrow> string \<Rightarrow> nat \<Rightarrow> event list" where
  "backoff_attempts m p 0 = []"
| "backoff_attempts m p (Suc n) =
     backoff_attempts m p n @ (if n = 0 then [] else [Sleep (2 ^ (n - 1) * 1000)]) @ [ApiCall m p]"

definition attempt_fails :: "gemini_api \<Rightarrow> string \<Rightarrow> string \<Rightarrow> nat \<Rightarrow> bool" where
  "attempt_fails api m p n = (case callGeminiAPI (api m p n) of Inl e \<Rightarrow> True | Inr t \<Rightarrow> False)"

text \<open>A reply whose first candidate has the finish reason \<open>SAFETY\<close>.\<close>

definition safety_reply :: "api_reply \<Rightarrow> bool" where
  "safety_reply reply =
     (case reply of
        HttpOk (Some (cand # rest)) \<Rightarrow> finishReason cand = Some ''SAFETY''
      | _ \<Rightarrow> False)"

definition text_reply :: "string \<Rightarrow> api_reply" where
  "text_reply t = HttpOk (Some [\<lparr>cand_parts = Some [t], finishReason = Some ''STOP''\<rparr>])"

definition blocked_reply :: api_reply where
  "blocked_reply = HttpOk (Some [\<lparr>cand_parts = Some [''...''], finishReason = Some ''SAFETY''\<rparr>])"

definition demo_genv :: "gemini_api \<Rightarrow> gemini_env" where
  "demo_genv api = \<lparr>GEMINI_API_KEY = Some ''key'', GEN_MODEL = ''primary'',
                     GEN_MODEL_FALLBACK = ''fallback'', endpoint = api\<rparr>"

text \<open>The primary model is unavailable, the fallback answers.\<close>

definition primary_down :: gemini_api where
  "primary_down m p n = (if m = ''primary'' then HttpError 503 ''unavailable'' else text_reply ''fallback text'')"

definition all_down :: gemini_api where
  "all_down m p n = HttpError 503 ''unavailable''"

definition always_blocked :: gemini_api where
  "always_blocked m p n = blocked_reply"

text \<open>A string with no white space at either end, and the words the next chunk starts
  with after a chunk of words \<open>ws\<close> has been emitted.\<close>

definition clean :: "string \<Rightarrow> bool" where
  "clean s = (s \<noteq> [] \<and> \<not> is_space (hd s) \<and> \<not> is_space (last s))"

definition overlap_words :: "int \<Rightarrow> string list \<Rightarrow> string list" where
  "overlap_words n ws = (if int (length ws) \<le> n then ws else slice_from ws (- n))"

text \<open>The invariant of the loop of \<open>chunkText\<close>: nothing has been emitted and the buffer is
  empty, or the buffer has no white space at its ends and each emitted chunk, and the
  buffer after the last one, starts with the overlap words of the chunk before it.\<close>

definition chunk_inv :: "int \<Rightarrow> chunk_state \<Rightarrow> bool" where
  "chunk_inv n st =
     ((currentChunk st = [] \<and> done_chunks st = [])
      \<or> (clean (currentChunk st)
          \<and> successively (\<lambda>a b. prefix (overlap_words n a) b)
               (map chunk_words (done_chunks st) @ [split_runs is_space (currentChunk st)])))"

definition demo_ienv :: ingest_env where
  "demo_ienv = \<lparr>now = ''2024-01-01T00:00:00.000Z'', parseUnit = (\<lambda>f. None)\<rparr>"

definition demo_file :: FileMetadata where
  "demo_file = \<lparr>filename = ''notes.txt'', filepath = ''data/notes.txt''\<rparr>"

definition demo_text :: string where
  "demo_text = ''a. b c d e. f g h i.''"

section \<open>Properties of cosine similarity\<close>

lemma cauchy_step:
  fixes S A B x y :: real
  assumes "S\<^sup>2 \<le> A * B" "0 \<le> A" "0 \<le> B"
  shows "(S + x * y)\<^sup>2 \<le> (A + x * x) * (B + y * y)"
proof -
  have nn: "0 \<le> A * (y * y) + B * (x * x)" using assms by simp
  have "(2 * (S * (x * y)))\<^sup>2 = 4 * S\<^sup>2 * (x * y)\<^sup>2"
    by (simp add: power2_eq_square)
  also have "\<dots> \<le> 4 * (A * B) * (x * y)\<^sup>2"
    using assms(1) by (simp add: mult_right_mono)
  also have "\<dots> \<le> (A * (y * y) + B * (x * x))\<^sup>2"
  proof -
    have "0 \<le> (A * (y * y) - B * (x * x))\<^sup>2" by simp
    then show ?thesis by (simp add: power2_eq_square algebra_simps)
  qed
  finally have "2 * (S * (x * y)) \<le> A * (y * y) + B * (x * x)"
    using nn by (rule power2_le_imp_le)
  moreover have "(S + x * y)\<^sup>2 = S\<^sup>2 + 2 * (S * (x * y)) + (x * y) * (x * y)"
    by (simp add: power2_eq_square algebra_simps)
  moreover have "(A + x * x) * (B + y * y) = A * B + (A * (y * y) + B * (x * x)) + (x * y) * (x * y)"
    by (simp add: algebra_simps)
  ultimately show ?thesis using assms(1) by linarith
qed

lemma cauchy_sums:
  fixes f g :: "nat \<Rightarrow> real"
  shows "(\<Sum>i<n. f i * g i)\<^sup>2 \<le> (\<Sum>i<n. f i * f i) * (\<Sum>i<n. g i * g i)"
proof (induction n)
  case 0
  show ?case by simp
next
  case (Suc n)
  have "0 \<le> (\<Sum>i<n. f i * f i)" "0 \<le> (\<Sum>i<n. g i * g i)"
    by (simp_all add: sum_nonneg)
  with Suc show ?case by (simp add: cauchy_step)
qed

subsection \<open>Rounding to double precision\<close>

lemma round_even_err: "\<bar>of_int (round_even y) - y\<bar> \<le> 1 / 2"
proof -
  have "of_int \<lfloor>y\<rfloor> \<le> y" "y < of_int \<lfloor>y\<rfloor> + 1" by linarith+
  then show ?thesis by (auto simp: round_even_def Let_def)
qed

lemma round_even_of_int [simp]: "round_even (of_int k) = k"
  by (simp add: round_even_def)

lemma round_even_eq:
  assumes "of_int m - 1 / 2 < y" "y < of_int m + 1 / 2"
  shows "round_even y = m"
proof -
  have "\<lfloor>y\<rfloor> = m \<or> \<lfloor>y\<rfloor> = m - 1" using assms by linarith
  moreover have "of_int \<lfloor>y\<rfloor> \<le> y" "y < of_int \<lfloor>y\<rfloor> + 1" by linarith+
  ultimately show ?thesis using assms by (auto simp: round_even_def Let_def)
qed

lemma pow2_less_imp: "(2::real) powi m < 2 powi n \<Longrightarrow> m < n"
  using power_int_increasing [of n m "2::real"] by (cases "m < n") auto

lemma pow2_pos: "0 < (2::real) powi n"
  by simp

lemma grid_unit_pos: "0 < grid_unit"
  unfolding grid_unit_def by (rule pow2_pos)

lemma min_normal_pos: "0 < min_normal"
  unfolding min_normal_def by (rule pow2_pos)

lemma ulp_exp_ge: "- 1074 \<le> ulp_exp x"
  by (simp add: ulp_exp_def)

lemma binade:
  assumes "x \<noteq> 0"
  shows "2 powi \<lfloor>log 2 \<bar>x\<bar>\<rfloor> \<le> \<bar>x\<bar>" and "\<bar>x\<bar> < 2 powi (\<lfloor>log 2 \<bar>x\<bar>\<rfloor> + 1)"
proof -
  have pos: "0 < \<bar>x\<bar>" using assms by simp
  have "2 powr real_of_int \<lfloor>log 2 \<bar>x\<bar>\<rfloor> \<le> \<bar>x\<bar>
        \<and> \<bar>x\<bar> < 2 powr (real_of_int \<lfloor>log 2 \<bar>x\<bar>\<rfloor> + 1)"
    using floor_log_eq_powr_iff [OF pos, of 2 "\<lfloor>log 2 \<bar>x\<bar>\<rfloor>"] by simp
  moreover have "real_of_int \<lfloor>log 2 \<bar>x\<bar>\<rfloor> + 1 = real_of_int (\<lfloor>log 2 \<bar>x\<bar>\<rfloor> + 1)"
    by simp
  moreover have "(2::real) powr real_of_int k = 2 powi k" for k
    by (rule powr_real_of_int') simp_all
  ultimately show "2 powi \<lfloor>log 2 \<bar>x\<bar>\<rfloor> \<le> \<bar>x\<bar>" and "\<bar>x\<bar> < 2 powi (\<lfloor>log 2 \<bar>x\<bar>\<rfloor> + 1)"
    by metis+
qed

lemma floor_log2_eq:
  assumes "2 powi k \<le> \<bar>x\<bar>" "\<bar>x\<bar> < 2 powi (k + 1)"
  shows "\<lfloor>log 2 \<bar>x\<bar>\<rfloor> = k"
proof -
  have nz: "x \<noteq> 0"
  proof
    assume "x = 0"
    with assms(1) have "(2::real) powi k \<le> 0" by simp
    with pow2_pos [of k] show False by linarith
  qed
  let ?e = "\<lfloor>log 2 \<bar>x\<bar>\<rfloor>"
  have "(2::real) powi k < 2 powi (?e + 1)" using assms(1) binade(2) [OF nz] by linarith
  then have "k < ?e + 1" by (rule pow2_less_imp)
  moreover have "(2::real) powi ?e < 2 powi (k + 1)" using assms(2) binade(1) [OF nz] by linarith
  then have "?e < k + 1" by (rule pow2_less_imp)
  ultimately show ?thesis by simp
qed

lemma ulp_exp_normal:
  assumes "2 powi k \<le> \<bar>x\<bar>" "\<bar>x\<bar> < 2 powi (k + 1)" "- 1022 \<le> k"
  shows "ulp_exp x = k - 52"
  using floor_log2_eq [OF assms(1,2)] assms(3) by (simp add: ulp_exp_def)

lemma rnd_abs_err: "\<bar>rnd x - x\<bar> \<le> 2 powi ulp_exp x / 2"
proof (cases "x = 0")
  case True
  then show ?thesis by (simp add: rnd_def)
next
  case False
  define q :: real where "q = 2 powi ulp_exp x"
  have q: "0 < q" by (simp add: q_def)
  have "rnd x - x = (of_int (round_even (x / q)) - x / q) * q"
    using False q by (simp add: rnd_def q_def [symmetric] algebra_simps)
  then have "\<bar>rnd x - x\<bar> = \<bar>of_int (round_even (x / q)) - x / q\<bar> * q"
    using q by (simp add: abs_mult)
  also have "\<dots> \<le> 1 / 2 * q"
    using round_even_err [of "x / q"] q by (intro mult_right_mono) simp_all
  finally show ?thesis by (simp add: q_def)
qed

lemma rnd_rel_err:
  assumes "min_normal \<le> \<bar>x\<bar>"
  shows "\<bar>rnd x - x\<bar> \<le> unit_roundoff * \<bar>x\<bar>"
proof -
  have nz: "x \<noteq> 0" using assms min_normal_pos by auto
  let ?e = "\<lfloor>log 2 \<bar>x\<bar>\<rfloor>"
  have lo: "2 powi ?e \<le> \<bar>x\<bar>" and hi: "\<bar>x\<bar> < 2 powi (?e + 1)" using binade [OF nz] by simp_all
  have "(2::real) powi (- 1022) < 2 powi (?e + 1)"
    using assms hi unfolding min_normal_def by linarith
  then have "- 1022 < ?e + 1" by (rule pow2_less_imp)
  then have ulp: "ulp_exp x = ?e - 52" by (simp add: ulp_exp_def)
  have "(2::real) powi (?e - 52) = 2 powi ?e / 2 ^ 52"
    by (subst power_int_diff) simp_all
  then have "(2::real) powi (?e - 52) / 2 = 2 powi ?e * unit_roundoff"
    by (simp add: unit_roundoff_def)
  also have "\<dots> \<le> \<bar>x\<bar> * unit_roundoff"
    using lo by (intro mult_right_mono) (simp_all add: unit_roundoff_def)
  finally show ?thesis using rnd_abs_err [of x] ulp by (simp add: mult.commute)
qed

lemma on_grid_0 [simp]: "on_grid 0"
  unfolding on_grid_def by (rule exI [of _ 0]) simp

lemma on_grid_add: "on_grid x \<Longrightarrow> on_grid y \<Longrightarrow> on_grid (x + y)"
  unfolding on_grid_def
proof (elim exE)
  fix j k :: int
  assume "x = of_int j * grid_unit" "y = of_int k * grid_unit"
  then have "x + y = of_int (j + k) * grid_unit" by (simp add: algebra_simps)
  then show "\<exists>m::int. x + y = of_int m * grid_unit" by blast
qed

lemma rnd_on_grid: "on_grid (rnd x)"
proof (cases "x = 0")
  case True
  then show ?thesis by (simp add: rnd_def)
next
  case False
  define m where "m = round_even (x / 2 powi ulp_exp x)"
  define d where "d = ulp_exp x + 1074"
  have d: "0 \<le> d" using ulp_exp_ge [of x] by (simp add: d_def)
  have "(2::real) powi d * 2 powi (- 1074) = 2 powi (d + - 1074)"
    by (subst power_int_add) simp_all
  then have "(2::real) powi ulp_exp x = 2 powi d * grid_unit"
    by (simp add: d_def grid_unit_def)
  also have "(2::real) powi d = of_int (2 ^ nat d)"
    using d by (simp add: power_int_nonneg_exp)
  finally have "rnd x = of_int (m * 2 ^ nat d) * grid_unit"
    using False by (simp add: rnd_def m_def)
  then show ?thesis unfolding on_grid_def by blast
qed

lemma rnd_subnormal_exact:
  assumes "on_grid x" "\<bar>x\<bar> < min_normal"
  shows "rnd x = x"
proof (cases "x = 0")
  case True
  then show ?thesis by (simp add: rnd_def)
next
  case False
  let ?e = "\<lfloor>log 2 \<bar>x\<bar>\<rfloor>"
  have "(2::real) powi ?e < 2 powi (- 1022)"
    using binade(1) [OF False] assms(2) unfolding min_normal_def by linarith
  then have "?e < - 1022" by (rule pow2_less_imp)
  then have "ulp_exp x = - 1074" by (simp add: ulp_exp_def)
  then have ulp: "2 powi ulp_exp x = grid_unit" by (simp only: grid_unit_def)
  from assms(1) obtain k :: int where k: "x = of_int k * grid_unit"
    by (auto simp: on_grid_def)
  have "x / grid_unit = of_int k" using grid_unit_pos by (simp add: k)
  then show ?thesis using False by (simp add: rnd_def ulp) (simp add: k)
qed

lemma rnd_rel_err_grid:
  assumes "on_grid x"
  shows "\<bar>rnd x - x\<bar> \<le> unit_roundoff * \<bar>x\<bar>"
proof (cases "min_normal \<le> \<bar>x\<bar>")
  case True
  then show ?thesis by (rule rnd_rel_err)
next
  case False
  then have "rnd x = x" using assms by (intro rnd_subnormal_exact) simp_all
  then show ?thesis by (simp add: unit_roundoff_def)
qed

lemma rnd_zero [simp]: "rnd 0 = 0"
  by (simp add: rnd_def)

lemma unit_roundoff_bounds: "0 < unit_roundoff" "unit_roundoff < 1"
  by (simp_all add: unit_roundoff_def)

subsection \<open>Evaluating a rounding\<close>

lemma rnd_eval:
  assumes "2 powi k \<le> \<bar>x\<bar>" "\<bar>x\<bar> < 2 powi (k + 1)" "- 1022 \<le> k"
    and "of_int m - 1 / 2 < x / 2 powi (k - 52)" "x / 2 powi (k - 52) < of_int m + 1 / 2"
  shows "rnd x = of_int m * 2 powi (k - 52)"
proof -
  have nz: "x \<noteq> 0"
  proof
    assume "x = 0"
    with assms(1) have "(2::real) powi k \<le> 0" by simp
    with pow2_pos [of k] show False by linarith
  qed
  have ulp: "ulp_exp x = k - 52" using assms(1,2,3) by (rule ulp_exp_normal)
  have "round_even (x / 2 powi (k - 52)) = m" using assms(4,5) by (rule round_even_eq)
  then show ?thesis using nz by (simp add: rnd_def ulp)
qed

lemma rnd_representable:
  assumes "2 powi k \<le> \<bar>x\<bar>" "\<bar>x\<bar> < 2 powi (k + 1)" "- 1022 \<le> k"
    and "x = of_int m * 2 powi (k - 52)"
  shows "rnd x = x"
proof -
  have "x / 2 powi (k - 52) = of_int m" using assms(4) by simp
  then have "rnd x = of_int m * 2 powi (k - 52)"
    using assms(1,2,3) by (intro rnd_eval) simp_all
  then show ?thesis using assms(4) by simp
qed

lemma small_below_overflow: "\<bar>r\<bar> \<le> 4 \<Longrightarrow> r < overflow_threshold \<and> - overflow_threshold < r"
proof -
  assume r: "\<bar>r\<bar> \<le> 4"
  have "(2::real) powi 2 < 2 powi 1024" by (rule power_int_strict_increasing) simp_all
  then have "4 < overflow_threshold" by (simp only: overflow_threshold_def) simp
  with r show ?thesis by linarith
qed

lemma to_double_small: "\<bar>rnd x\<bar> \<le> 4 \<Longrightarrow> to_double x = Fin (rnd x)"
  using small_below_overflow [of "rnd x"] by (simp add: to_double_def Let_def)

lemma rnd_1: "rnd 1 = 1"
  by (rule rnd_representable [where k = 0 and m = "2 ^ 52"]) simp_all

lemma rnd_2: "rnd 2 = 2"
  by (rule rnd_representable [where k = 1 and m = "2 ^ 52"]) simp_all

lemma rnd_3: "rnd 3 = 3"
  by (rule rnd_representable [where k = 1 and m = "3 * 2 ^ 51"]) simp_all

lemma rnd_sqrt_3: "rnd (sqrt 3) = 7800463371553962 / 2 ^ 52"
proof -
  have lo: "7800463371553961.5 / 2 ^ 52 < sqrt 3"
    by (rule real_less_rsqrt) (simp add: power2_eq_square)
  have hi: "sqrt 3 < 7800463371553962.5 / 2 ^ 52"
    by (rule real_less_lsqrt) (simp_all add: power2_eq_square)
  have "rnd (sqrt 3) = of_int 7800463371553962 * 2 powi (0 - 52)"
  proof (rule rnd_eval)
    show "2 powi 0 \<le> \<bar>sqrt 3\<bar>" by simp
    show "\<bar>sqrt 3\<bar> < 2 powi (0 + 1)" using hi by simp
    show "- 1022 \<le> (0::int)" by simp
    show "of_int 7800463371553962 - 1 / 2 < sqrt 3 / 2 powi (0 - 52)" using lo by simp
    show "sqrt 3 / 2 powi (0 - 52) < of_int 7800463371553962 + 1 / 2" using hi by simp
  qed
  then show ?thesis by simp
qed

lemma rnd_sqrt_3_squared:
  "rnd (7800463371553962 / 2 ^ 52 * (7800463371553962 / 2 ^ 52)) = 6755399441055743 / 2 ^ 51"
proof -
  have "rnd (7800463371553962 / 2 ^ 52 * (7800463371553962 / 2 ^ 52))
          = of_int 6755399441055743 * 2 powi (1 - 52)"
    by (rule rnd_eval) simp_all
  then show ?thesis by simp
qed

lemma rnd_3_div:
  "rnd (3 / (6755399441055743 / 2 ^ 51)) = 4503599627370497 / 2 ^ 52"
proof -
  have "rnd (3 / (6755399441055743 / 2 ^ 51)) = of_int 4503599627370497 * 2 powi (0 - 52)"
    by (rule rnd_eval) simp_all
  then show ?thesis by simp
qed

lemma cosine_ones_sums:
  "fold (cosine_step [Fin 1, Fin 1, Fin 1] [Fin 1, Fin 1, Fin 1]) [0..<3] (Fin 0, Fin 0, Fin 0)
     = (Fin 3, Fin 3, Fin 3)"
proof -
  have one: "to_double 1 = Fin 1" using to_double_small [of 1] by (simp add: rnd_1)
  have two: "to_double 2 = Fin 2" using to_double_small [of 2] by (simp add: rnd_2)
  have three: "to_double 3 = Fin 3" using to_double_small [of 3] by (simp add: rnd_3)
  have "[0..<3] = [0, 1, 2]" by (simp add: upt_rec)
  then show ?thesis by (simp add: cosine_step_def one two three)
qed

lemma cosine_ones:
  "cosineSimilarity [Fin 1, Fin 1, Fin 1] [Fin 1, Fin 1, Fin 1] = Inr (Fin (4503599627370497 / 2 ^ 52))"
proof -
  define s :: real where "s = 7800463371553962 / 2 ^ 52"
  define p :: real where "p = 6755399441055743 / 2 ^ 51"
  define q :: real where "q = 4503599627370497 / 2 ^ 52"
  have "to_double (sqrt 3) = Fin (rnd (sqrt 3))"
    by (rule to_double_small) (simp add: rnd_sqrt_3)
  then have root: "fsqrt (Fin 3) = Fin s" by (simp add: rnd_sqrt_3 s_def)
  have "to_double (s * s) = Fin (rnd (s * s))"
    unfolding s_def by (rule to_double_small) (simp only: rnd_sqrt_3_squared, simp)
  then have prod: "fmul (Fin s) (Fin s) = Fin p"
    unfolding s_def p_def by (simp only: fmul.simps rnd_sqrt_3_squared)
  have pos: "fpositive (Fin p)" by (simp add: p_def)
  have "to_double (3 / p) = Fin (rnd (3 / p))"
    unfolding p_def by (rule to_double_small) (simp only: rnd_3_div, simp)
  moreover have "p \<noteq> 0" by (simp add: p_def)
  ultimately have quot: "fdiv (Fin 3) (Fin p) = Fin q"
    unfolding p_def q_def by (simp only: fdiv.simps rnd_3_div if_False)
  have len: "length [Fin 1, Fin 1, Fin 1] = 3" by simp
  have "cosineSimilarity [Fin 1, Fin 1, Fin 1] [Fin 1, Fin 1, Fin 1] = Inr (Fin q)"
    unfolding cosineSimilarity_def len cosine_ones_sums
    by (simp only: Let_def prod.case root prod pos quot if_True) simp
  then show ?thesis by (simp only: q_def)
qed

subsection \<open>Rounded products and sums\<close>

lemma overflow_threshold_pos: "0 < overflow_threshold"
  unfolding overflow_threshold_def by (rule pow2_pos)

lemma to_double_Fin: "\<bar>rnd x\<bar> < overflow_threshold \<Longrightarrow> to_double x = Fin (rnd x)"
  by (auto simp: to_double_def Let_def)

lemma to_double_0 [simp]: "to_double 0 = Fin 0"
  using overflow_threshold_pos by (simp add: to_double_Fin)

lemma rel_err_upper:
  assumes "\<bar>r - x\<bar> \<le> unit_roundoff * \<bar>x\<bar>"
  shows "\<bar>r\<bar> \<le> (1 + unit_roundoff) * \<bar>x\<bar>"
proof -
  have "\<bar>r\<bar> \<le> \<bar>x\<bar> + \<bar>r - x\<bar>" by linarith
  with assms show ?thesis by (simp add: algebra_simps)
qed

lemma rel_err_lower:
  assumes "\<bar>r - x\<bar> \<le> unit_roundoff * \<bar>x\<bar>" "0 \<le> x"
  shows "(1 - unit_roundoff) * x \<le> r"
proof -
  have "x - \<bar>r - x\<bar> \<le> r" by linarith
  with assms show ?thesis by (simp add: algebra_simps)
qed

lemma moderate_val:
  assumes "moderate d"
  shows "d = Fin (val d)" and "val d = 0 \<or> (entry_min \<le> \<bar>val d\<bar> \<and> \<bar>val d\<bar> \<le> entry_max)"
  using assms by (cases d; simp add: moderate_def)+

lemma entry_consts:
  "0 < entry_min" "0 < entry_max"
  "min_normal \<le> entry_min * entry_min / 2 ^ 20"
  "2 ^ 21 * (entry_max * entry_max) \<le> overflow_threshold / 4"
  "min_normal \<le> entry_min * entry_min"
  by (simp_all add: min_normal_def entry_min_def overflow_threshold_def entry_max_def)

lemma product_range:
  assumes "x = 0 \<or> (entry_min \<le> \<bar>x\<bar> \<and> \<bar>x\<bar> \<le> entry_max)"
    and "y = 0 \<or> (entry_min \<le> \<bar>y\<bar> \<and> \<bar>y\<bar> \<le> entry_max)"
  shows "\<bar>x * y\<bar> \<le> entry_max * entry_max"
    and "x * y = 0 \<or> entry_min * entry_min \<le> \<bar>x * y\<bar>"
proof -
  have pos: "0 \<le> entry_max" "0 \<le> entry_min" using entry_consts(1,2) by simp_all
  show "\<bar>x * y\<bar> \<le> entry_max * entry_max"
  proof (cases "x = 0 \<or> y = 0")
    case True
    then show ?thesis using pos by auto
  next
    case False
    with assms have "\<bar>x\<bar> \<le> entry_max" "\<bar>y\<bar> \<le> entry_max" by simp_all
    then have "\<bar>x\<bar> * \<bar>y\<bar> \<le> entry_max * entry_max" by (intro mult_mono) (simp_all add: pos)
    then show ?thesis by (simp add: abs_mult)
  qed
  show "x * y = 0 \<or> entry_min * entry_min \<le> \<bar>x * y\<bar>"
  proof (cases "x = 0 \<or> y = 0")
    case True
    then show ?thesis by auto
  next
    case False
    with assms have "entry_min \<le> \<bar>x\<bar>" "entry_min \<le> \<bar>y\<bar>" by simp_all
    then have "entry_min * entry_min \<le> \<bar>x\<bar> * \<bar>y\<bar>" by (intro mult_mono) (simp_all add: pos)
    then show ?thesis by (simp add: abs_mult)
  qed
qed

lemma rnd_product:
  assumes "z = 0 \<or> entry_min * entry_min \<le> \<bar>z\<bar>"
  shows "\<bar>rnd z - z\<bar> \<le> unit_roundoff * \<bar>z\<bar>"
proof (cases "z = 0")
  case True
  then show ?thesis by simp
next
  case False
  with assms have "entry_min * entry_min \<le> \<bar>z\<bar>" by simp
  moreover note entry_consts(5)
  ultimately show ?thesis by (intro rnd_rel_err) linarith
qed

lemma fmul_moderate:
  assumes "\<bar>x * y\<bar> \<le> entry_max * entry_max" "x * y = 0 \<or> entry_min * entry_min \<le> \<bar>x * y\<bar>"
  shows "fmul (Fin x) (Fin y) = Fin (rnd (x * y))"
    and "\<bar>rnd (x * y) - x * y\<bar> \<le> unit_roundoff * \<bar>x * y\<bar>"
proof -
  show err: "\<bar>rnd (x * y) - x * y\<bar> \<le> unit_roundoff * \<bar>x * y\<bar>"
    using assms(2) by (rule rnd_product)
  have "\<bar>rnd (x * y)\<bar> \<le> (1 + unit_roundoff) * \<bar>x * y\<bar>" using err by (rule rel_err_upper)
  also have "\<dots> \<le> 2 * (entry_max * entry_max)"
    using assms(1) unit_roundoff_bounds by (intro mult_mono) simp_all
  also have "\<dots> < overflow_threshold"
    using entry_consts(4) entry_consts(2) overflow_threshold_pos
    by (simp add: field_simps) 
  finally show "fmul (Fin x) (Fin y) = Fin (rnd (x * y))" by (simp add: to_double_Fin)
qed

lemma fadd_grid:
  assumes "on_grid s" "on_grid p" "\<bar>s + p\<bar> \<le> overflow_threshold / 2"
  shows "fadd (Fin s) (Fin p) = Fin (rnd (s + p))"
    and "\<bar>rnd (s + p) - (s + p)\<bar> \<le> unit_roundoff * \<bar>s + p\<bar>"
proof -
  show err: "\<bar>rnd (s + p) - (s + p)\<bar> \<le> unit_roundoff * \<bar>s + p\<bar>"
    using assms(1,2) by (intro rnd_rel_err_grid on_grid_add)
  have "\<bar>rnd (s + p)\<bar> \<le> (1 + unit_roundoff) * \<bar>s + p\<bar>" using err by (rule rel_err_upper)
  also have "\<dots> \<le> (1 + unit_roundoff) * (overflow_threshold / 2)"
    using assms(3) unit_roundoff_bounds by (intro mult_left_mono) simp_all
  also have "\<dots> < overflow_threshold"
    using unit_roundoff_bounds overflow_threshold_pos by (simp add: field_simps)
  finally show "fadd (Fin s) (Fin p) = Fin (rnd (s + p))" by (simp add: to_double_Fin)
qed

subsection \<open>Powers of the rounding factors\<close>

lemma one_plus_u_power:
  "2 * real m * unit_roundoff \<le> 1 \<Longrightarrow> (1 + unit_roundoff) ^ m \<le> 1 + 2 * real m * unit_roundoff"
proof (induction m)
  case 0
  show ?case by simp
next
  case (Suc m)
  let ?u = unit_roundoff
  have u: "0 < ?u" by (rule unit_roundoff_bounds)
  from Suc.prems have small: "2 * real m * ?u \<le> 1" using u by (simp add: algebra_simps)
  then have "(1 + ?u) ^ m \<le> 1 + 2 * real m * ?u" by (rule Suc.IH)
  then have "(1 + ?u) ^ Suc m \<le> (1 + 2 * real m * ?u) * (1 + ?u)"
    using u by (simp add: mult.commute mult_left_mono)
  also have "\<dots> = 1 + 2 * real m * ?u + ?u + (2 * real m * ?u) * ?u"
    by (simp add: algebra_simps)
  also have "\<dots> \<le> 1 + 2 * real m * ?u + ?u + 1 * ?u"
    using small u by (intro add_left_mono mult_right_mono) simp_all
  also have "\<dots> = 1 + 2 * real (Suc m) * ?u" by (simp add: algebra_simps)
  finally show ?case .
qed

lemma one_minus_u_power: "1 - real m * unit_roundoff \<le> (1 - unit_roundoff) ^ m"
  using Bernoulli_inequality [of "- unit_roundoff" m] unit_roundoff_bounds by simp

lemma power_factors:
  assumes "m \<le> 2 ^ 21"
  shows "(1 + unit_roundoff) ^ m \<le> 2" and "1 / 2 \<le> (1 - unit_roundoff) ^ m"
    and "1 \<le> (1 + unit_roundoff) ^ m" and "(1 - unit_roundoff) ^ m \<le> 1"
    and "0 < (1 - unit_roundoff) ^ m"
proof -
  have m: "real m \<le> 2 ^ 21" using assms by (metis of_nat_le_iff of_nat_numeral of_nat_power)
  have mu: "real m * unit_roundoff \<le> 1 / 2 ^ 32"
    using m by (simp add: unit_roundoff_def field_simps)
  have "(1 + unit_roundoff) ^ m \<le> 1 + 2 * real m * unit_roundoff"
    using mu by (intro one_plus_u_power) simp
  then show "(1 + unit_roundoff) ^ m \<le> 2" using mu by simp
  show "1 / 2 \<le> (1 - unit_roundoff) ^ m" using one_minus_u_power [of m] mu by simp
  show "1 \<le> (1 + unit_roundoff) ^ m" using unit_roundoff_bounds by (intro one_le_power) simp
  show "(1 - unit_roundoff) ^ m \<le> 1" using unit_roundoff_bounds by (intro power_le_one) simp_all
  show "0 < (1 - unit_roundoff) ^ m" using unit_roundoff_bounds by simp
qed

subsection \<open>The sums of the loop\<close>

lemma fold_cosine_dsum:
  "fold (cosine_step a b) [0..<n] (Fin 0, Fin 0, Fin 0) = (dsum a b n, dsum a a n, dsum b b n)"
  by (induction n) (simp_all add: cosine_step_def)

lemma dsum_bounds:
  assumes "\<forall>i<n. moderate (a ! i) \<and> moderate (b ! i)" "n \<le> 2 ^ 20"
  shows "\<exists>S. dsum a b n = Fin S \<and> on_grid S
           \<and> \<bar>S\<bar> \<le> (1 + unit_roundoff) ^ (n + 1) * (\<Sum>i<n. \<bar>val (a ! i) * val (b ! i)\<bar>)
           \<and> ((\<forall>i<n. 0 \<le> val (a ! i) * val (b ! i))
                \<longrightarrow> (1 - unit_roundoff) ^ (n + 1) * (\<Sum>i<n. val (a ! i) * val (b ! i)) \<le> S)"
  using assms
proof (induction n)
  case 0
  show ?case by (intro exI [of _ 0]) simp
next
  case (Suc n)
  let ?u = unit_roundoff
  let ?E = "entry_max * entry_max"
  let ?z = "\<lambda>i. val (a ! i) * val (b ! i)"
  let ?T = "\<Sum>i<n. \<bar>?z i\<bar>"
  have u: "0 < ?u" "?u < 1" by (rule unit_roundoff_bounds)+
  have n: "n \<le> 2 ^ 20" "n + 1 \<le> 2 ^ 21" "n + 2 \<le> 2 ^ 21" using Suc.prems(2) by simp_all
  from Suc.IH Suc.prems obtain S where S: "dsum a b n = Fin S" and gS: "on_grid S"
    and upS: "\<bar>S\<bar> \<le> (1 + ?u) ^ (n + 1) * ?T"
    and loS: "(\<forall>i<n. 0 \<le> ?z i) \<longrightarrow> (1 - ?u) ^ (n + 1) * (\<Sum>i<n. ?z i) \<le> S"
    by auto
  define x where "x = val (a ! n)"
  define y where "y = val (b ! n)"
  define z where "z = x * y"
  define p where "p = rnd z"
  from Suc.prems(1) have ma: "moderate (a ! n)" and mb: "moderate (b ! n)" by simp_all
  have an: "a ! n = Fin x" and bn: "b ! n = Fin y"
    using moderate_val(1) [OF ma] moderate_val(1) [OF mb] by (simp_all add: x_def y_def)
  have zr: "\<bar>z\<bar> \<le> ?E" "z = 0 \<or> entry_min * entry_min \<le> \<bar>z\<bar>"
    unfolding z_def x_def y_def
    using product_range [OF moderate_val(2) [OF ma] moderate_val(2) [OF mb]] by simp_all
  have mul: "fmul (Fin x) (Fin y) = Fin p" and perr: "\<bar>p - z\<bar> \<le> ?u * \<bar>z\<bar>"
    using fmul_moderate [of x y] zr by (simp_all add: z_def p_def)
  have gp: "on_grid p" unfolding p_def by (rule rnd_on_grid)
  have E: "0 \<le> ?E" using entry_consts(2) by simp
  have each: "\<bar>?z i\<bar> \<le> ?E" if "i < n" for i
  proof -
    from Suc.prems(1) that have "moderate (a ! i)" "moderate (b ! i)" by simp_all
    then show ?thesis using product_range(1) moderate_val(2) by blast
  qed
  have T: "?T \<le> real n * ?E"
    using sum_bounded_above [of "{..<n}" "\<lambda>i. \<bar>?z i\<bar>" ?E] each by simp
  have T0: "0 \<le> ?T" by (simp add: sum_nonneg)
  have "\<bar>S\<bar> \<le> 2 * ?T"
  proof -
    have "(1 + ?u) ^ (n + 1) * ?T \<le> 2 * ?T"
      using power_factors(1) [OF n(2)] T0 by (intro mult_right_mono) simp_all
    with upS show ?thesis by linarith
  qed
  then have absS: "\<bar>S\<bar> \<le> 2 * real n * ?E" using T by linarith
  have absp: "\<bar>p\<bar> \<le> (1 + ?u) * \<bar>z\<bar>" using perr by (rule rel_err_upper)
  then have "\<bar>p\<bar> \<le> 2 * ?E"
  proof -
    have "(1 + ?u) * \<bar>z\<bar> \<le> 2 * ?E" using zr(1) u by (intro mult_mono) simp_all
    with absp show ?thesis by linarith
  qed
  with absS have "\<bar>S + p\<bar> \<le> 2 * (real n + 1) * ?E" by (simp add: algebra_simps)
  also have "\<dots> \<le> 2 * 2 ^ 20 * ?E"
  proof -
    have "real (Suc n) \<le> real (2 ^ 20)" using Suc.prems(2) by (simp only: of_nat_le_iff)
    then have "real n + 1 \<le> 2 ^ 20" by simp
    then have "2 * (real n + 1) \<le> 2 * 2 ^ 20" by simp
    then show ?thesis using E by (rule mult_right_mono)
  qed
  also have "\<dots> \<le> overflow_threshold / 2"
    using entry_consts(4) overflow_threshold_pos by simp
  finally have small: "\<bar>S + p\<bar> \<le> overflow_threshold / 2" .
  define S' where "S' = rnd (S + p)"
  have add: "fadd (Fin S) (Fin p) = Fin S'" and serr: "\<bar>S' - (S + p)\<bar> \<le> ?u * \<bar>S + p\<bar>"
    using fadd_grid [OF gS gp small] by (simp_all add: S'_def)
  have run: "dsum a b (Suc n) = Fin S'" by (simp only: dsum.simps S an bn mul add)
  have gS': "on_grid S'" unfolding S'_def by (rule rnd_on_grid)
  have pw: "1 \<le> (1 + ?u) ^ n" "(1 - ?u) ^ n \<le> 1" "0 \<le> (1 - ?u) ^ n" "0 \<le> 1 - ?u"
    using u by (simp_all add: one_le_power power_le_one)
  have up: "\<bar>S'\<bar> \<le> (1 + ?u) ^ (Suc n + 1) * (\<Sum>i<Suc n. \<bar>?z i\<bar>)"
  proof -
    have "\<bar>S'\<bar> \<le> (1 + ?u) * \<bar>S + p\<bar>" using serr by (rule rel_err_upper)
    also have "\<dots> \<le> (1 + ?u) * (\<bar>S\<bar> + \<bar>p\<bar>)" using u by (intro mult_left_mono) simp_all
    also have "\<dots> \<le> (1 + ?u) * ((1 + ?u) ^ (n + 1) * ?T + (1 + ?u) ^ (n + 1) * \<bar>z\<bar>)"
    proof -
      have u1: "0 \<le> 1 + ?u" using u by simp
      have "(1 + ?u) * 1 \<le> (1 + ?u) * (1 + ?u) ^ n"
        using pw(1) u1 by (rule mult_left_mono)
      then have "1 + ?u \<le> (1 + ?u) ^ (n + 1)" by simp
      then have "(1 + ?u) * \<bar>z\<bar> \<le> (1 + ?u) ^ (n + 1) * \<bar>z\<bar>"
        by (rule mult_right_mono) simp
      with upS absp have "\<bar>S\<bar> + \<bar>p\<bar> \<le> (1 + ?u) ^ (n + 1) * ?T + (1 + ?u) ^ (n + 1) * \<bar>z\<bar>"
        by linarith
      then show ?thesis using u by (intro mult_left_mono) simp_all
    qed
    also have "\<dots> = (1 + ?u) ^ (Suc n + 1) * (\<Sum>i<Suc n. \<bar>?z i\<bar>)"
      by (simp add: z_def x_def y_def algebra_simps)
    finally show ?thesis .
  qed
  have lo: "(1 - ?u) ^ (Suc n + 1) * (\<Sum>i<Suc n. ?z i) \<le> S'" if nonneg: "\<forall>i<Suc n. 0 \<le> ?z i"
  proof -
    let ?Z = "\<Sum>i<n. ?z i"
    have Z0: "0 \<le> ?Z" using nonneg by (intro sum_nonneg) simp
    have z0: "0 \<le> z" using nonneg by (simp add: z_def x_def y_def)
    have loS': "(1 - ?u) ^ (n + 1) * ?Z \<le> S" using loS nonneg by simp
    have "(1 - ?u) * (1 - ?u) ^ n \<le> (1 - ?u) * 1"
      using pw(2,4) by (rule mult_left_mono)
    then have "(1 - ?u) ^ (n + 1) \<le> 1 - ?u" by simp
    then have "(1 - ?u) ^ (n + 1) * z \<le> (1 - ?u) * z"
      using z0 by (rule mult_right_mono)
    also have "\<dots> \<le> p" using perr z0 by (rule rel_err_lower)
    finally have lop: "(1 - ?u) ^ (n + 1) * z \<le> p" .
    have sum: "(1 - ?u) ^ (n + 1) * (?Z + z) \<le> S + p"
      using loS' lop by (simp add: algebra_simps)
    have "0 \<le> (1 - ?u) ^ (n + 1) * (?Z + z)" using Z0 z0 u by simp
    with sum have sp0: "0 \<le> S + p" by linarith
    have "(1 - ?u) ^ (Suc n + 1) * (\<Sum>i<Suc n. ?z i) = (1 - ?u) * ((1 - ?u) ^ (n + 1) * (?Z + z))"
      by (simp add: z_def x_def y_def algebra_simps)
    also have "\<dots> \<le> (1 - ?u) * (S + p)" using sum pw(4) by (intro mult_left_mono)
    also have "\<dots> \<le> S'" using serr sp0 by (rule rel_err_lower)
    finally show ?thesis .
  qed
  from run gS' up lo show ?case by blast
qed

subsection \<open>Rounding a bounded number\<close>

lemma ulp_exp_subnormal:
  assumes "x \<noteq> 0" "\<bar>x\<bar> < min_normal"
  shows "ulp_exp x = - 1074"
proof -
  have "2 powi \<lfloor>log 2 \<bar>x\<bar>\<rfloor> \<le> \<bar>x\<bar>" using assms(1) by (rule binade(1))
  with assms(2) have "(2::real) powi \<lfloor>log 2 \<bar>x\<bar>\<rfloor> < 2 powi (- 1022)"
    by (simp add: min_normal_def)
  then have "\<lfloor>log 2 \<bar>x\<bar>\<rfloor> < - 1022" by (rule pow2_less_imp)
  then show ?thesis by (simp add: ulp_exp_def)
qed

lemma subnormal_consts: "min_normal + grid_unit / 2 \<le> 1" "min_normal \<le> 1 / 8"
  by (simp_all add: min_normal_def grid_unit_def power_int_minus field_simps)

lemma rnd_bounded:
  assumes "\<bar>q\<bar> \<le> K" "1 \<le> K"
  shows "\<bar>rnd q\<bar> \<le> (1 + unit_roundoff) * K"
proof -
  have u: "0 < unit_roundoff" by (rule unit_roundoff_bounds)
  have K: "K \<le> (1 + unit_roundoff) * K" using u assms(2) by (simp add: algebra_simps)
  show ?thesis
  proof (cases "min_normal \<le> \<bar>q\<bar>")
    case True
    then have "\<bar>rnd q - q\<bar> \<le> unit_roundoff * \<bar>q\<bar>" by (rule rnd_rel_err)
    then have "\<bar>rnd q\<bar> \<le> (1 + unit_roundoff) * \<bar>q\<bar>" by (rule rel_err_upper)
    also have "\<dots> \<le> (1 + unit_roundoff) * K" using assms(1) u by (intro mult_left_mono) simp_all
    finally show ?thesis .
  next
    case False
    show ?thesis
    proof (cases "q = 0")
      case True
      then show ?thesis using K assms(2) by simp
    next
      case nz: False
      from False have sub: "\<bar>q\<bar> < min_normal" by simp
      have "\<bar>rnd q - q\<bar> \<le> 2 powi ulp_exp q / 2" by (rule rnd_abs_err)
      also have "\<dots> = grid_unit / 2"
        using ulp_exp_subnormal [OF nz sub] by (simp add: grid_unit_def)
      finally have "\<bar>rnd q\<bar> \<le> min_normal + grid_unit / 2" using sub by linarith
      with subnormal_consts(1) K assms(2) show ?thesis by linarith
    qed
  qed
qed

lemma rnd_range:
  assumes "min_normal \<le> \<bar>x\<bar>" "\<bar>x\<bar> \<le> overflow_threshold / 2"
  shows "to_double x = Fin (rnd x)" and "\<bar>rnd x - x\<bar> \<le> unit_roundoff * \<bar>x\<bar>"
proof -
  show err: "\<bar>rnd x - x\<bar> \<le> unit_roundoff * \<bar>x\<bar>" using assms(1) by (rule rnd_rel_err)
  have u: "0 < unit_roundoff" "unit_roundoff < 1" by (rule unit_roundoff_bounds)+
  have x: "0 < \<bar>x\<bar>" using assms(1) min_normal_pos by linarith
  have "\<bar>rnd x\<bar> \<le> (1 + unit_roundoff) * \<bar>x\<bar>" using err by (rule rel_err_upper)
  also have "\<dots> < 2 * \<bar>x\<bar>" using u x by (intro mult_strict_right_mono) simp_all
  also have "\<dots> \<le> overflow_threshold" using assms(2) by simp
  finally show "to_double x = Fin (rnd x)" by (rule to_double_Fin)
qed

subsection \<open>The accumulated error factors\<close>

lemma tolerance_factor:
  assumes "n \<le> 2 ^ 20"
  shows "(1 + unit_roundoff) ^ (n + 2) / (1 - unit_roundoff) ^ (n + 4) \<le> 1 + real (n + 3) / 2 ^ 51"
proof -
  let ?u = unit_roundoff
  let ?U = "1 + ?u"
  let ?L = "1 - ?u"
  have u: "0 < ?u" "?u < 1" by (rule unit_roundoff_bounds)+
  have L: "0 < ?L" using u by simp
  have Lp: "0 < ?L ^ k" for k using L by simp
  define t where "t = real (2 * n + 6) * ?u"
  have "real (2 * n + 6) \<le> real (2 * 2 ^ 20 + 6)" using assms by (simp only: of_nat_le_iff)
  then have "t \<le> real (2 * 2 ^ 20 + 6) * ?u" unfolding t_def using u by (intro mult_right_mono) simp_all
  also have "\<dots> \<le> 1 / 2" by (simp add: unit_roundoff_def)
  finally have t: "t \<le> 1 / 2" .
  have t0: "0 \<le> t" unfolding t_def using u by simp
  have "?U * ?L \<le> 1" using u by (simp add: algebra_simps)
  then have "(?U * ?L) ^ (n + 2) \<le> 1" using u by (intro power_le_one) simp_all
  then have UL: "?U ^ (n + 2) * ?L ^ (n + 2) \<le> 1" by (simp only: power_mult_distrib)
  have low: "1 - t \<le> ?L ^ (2 * n + 6)" unfolding t_def by (rule one_minus_u_power)
  have "2 * n + 6 = (n + 2) + (n + 4)" by simp
  then have split: "?L ^ (2 * n + 6) = ?L ^ (n + 2) * ?L ^ (n + 4)"
    by (simp only: power_add)
  have "1 \<le> (1 + 2 * t) * (1 - t)"
  proof -
    have "(1 + 2 * t) * (1 - t) = 1 + t * (1 - 2 * t)" by (simp add: algebra_simps)
    moreover have "0 \<le> t * (1 - 2 * t)" using t t0 by (intro mult_nonneg_nonneg) simp_all
    ultimately show ?thesis by linarith
  qed
  also have "\<dots> \<le> (1 + 2 * t) * ?L ^ (2 * n + 6)" using low t0 by (intro mult_left_mono) simp_all
  finally have one: "1 \<le> (1 + 2 * t) * (?L ^ (n + 2) * ?L ^ (n + 4))" by (simp only: split)
  have U0: "0 \<le> ?U ^ (n + 2)" using u by simp
  have "?U ^ (n + 2) * 1 \<le> ?U ^ (n + 2) * ((1 + 2 * t) * (?L ^ (n + 2) * ?L ^ (n + 4)))"
    using one U0 by (rule mult_left_mono)
  then have "?U ^ (n + 2) \<le> ?U ^ (n + 2) * ((1 + 2 * t) * (?L ^ (n + 2) * ?L ^ (n + 4)))"
    by (simp only: mult_1_right)
  also have "\<dots> = (?U ^ (n + 2) * ?L ^ (n + 2)) * ((1 + 2 * t) * ?L ^ (n + 4))"
    by (simp only: mult_ac)
  also have "\<dots> \<le> 1 * ((1 + 2 * t) * ?L ^ (n + 4))"
    using UL t0 Lp [of "n + 4"] by (intro mult_right_mono) simp_all
  finally have "?U ^ (n + 2) \<le> (1 + 2 * t) * ?L ^ (n + 4)" by simp
  then have "?U ^ (n + 2) / ?L ^ (n + 4) \<le> 1 + 2 * t"
    using Lp [of "n + 4"] by (simp add: pos_divide_le_eq)
  also have "1 + 2 * t = 1 + real (n + 3) / 2 ^ 51"
    by (simp add: t_def unit_roundoff_def field_simps)
  finally show ?thesis .
qed

lemma self_factor:
  "(1 + unit_roundoff) / (1 - unit_roundoff) ^ 3 \<le> 1 + 1 / 2 ^ 50"
  "1 - 1 / 2 ^ 50 \<le> (1 - unit_roundoff) / (1 + unit_roundoff) ^ 3"
  by (simp_all add: unit_roundoff_def field_simps)

subsection \<open>The zero guard\<close>

lemma dsum_zero:
  assumes "\<forall>i<n. a ! i = Fin 0"
  shows "dsum a a n = Fin 0"
  using assms by (induction n) simp_all

lemma fpositive_zero_left: "\<not> fpositive (fmul (Fin 0) d)"
  by (cases d) simp_all

lemma fpositive_zero_right: "\<not> fpositive (fmul d (Fin 0))"
  by (cases d) simp_all

lemma fsqrt_zero: "fsqrt (Fin 0) = Fin 0"
  by simp

text \<open>The guard \<open>magnitude > 0\<close> matters: the unguarded quotient of a zero dot product by a
  zero magnitude is NaN.\<close>

lemma fdiv_zero_zero: "fdiv (Fin 0) (Fin 0) = NaN"
  by simp

lemma cosineSimilarity_dsum:
  assumes "length a = length b"
  shows "cosineSimilarity a b =
           Inr (if fpositive (fmul (fsqrt (dsum a a (length a))) (fsqrt (dsum b b (length a))))
                then fdiv (dsum a b (length a))
                          (fmul (fsqrt (dsum a a (length a))) (fsqrt (dsum b b (length a))))
                else Fin 0)"
  using assms by (simp add: cosineSimilarity_def fold_cosine_dsum Let_def)

lemma cosineSimilarity_zero:
  assumes "length a = length b" "(\<forall>d\<in>set a. d = Fin 0) \<or> (\<forall>d\<in>set b. d = Fin 0)"
  shows "cosineSimilarity a b = Inr (Fin 0)"
  using assms(2)
proof
  assume "\<forall>d\<in>set a. d = Fin 0"
  then have "\<forall>i<length a. a ! i = Fin 0" by simp
  then have "dsum a a (length a) = Fin 0" by (rule dsum_zero)
  then show ?thesis
    by (simp only: cosineSimilarity_dsum [OF assms(1)] fsqrt_zero fpositive_zero_left if_False)
next
  assume "\<forall>d\<in>set b. d = Fin 0"
  then have "\<forall>i<length a. b ! i = Fin 0" using assms(1) by simp
  then have "dsum b b (length a) = Fin 0" by (rule dsum_zero)
  then show ?thesis
    by (simp only: cosineSimilarity_dsum [OF assms(1)] fsqrt_zero fpositive_zero_right if_False)
qed

subsection \<open>Norms and their square roots\<close>

lemma entry_consts_sqrt:
  "min_normal \<le> entry_min / 2"
  "2 ^ 11 * entry_max \<le> overflow_threshold / 2"
  "2 ^ 23 * (entry_max * entry_max) \<le> overflow_threshold / 2"
  "min_normal \<le> entry_min * entry_min / 16"
  by (simp_all add: min_normal_def entry_min_def overflow_threshold_def entry_max_def)

lemma norm_sqrt:
  assumes mod: "\<forall>i<n. moderate (a ! i)" and n: "n \<le> 2 ^ 20" and nz: "\<exists>i<n. a ! i \<noteq> Fin 0"
  shows "\<exists>\<alpha> s. dsum a a n = Fin \<alpha> \<and> fsqrt (Fin \<alpha>) = Fin s \<and> 0 < \<alpha>
           \<and> 0 < (\<Sum>i<n. val (a ! i) * val (a ! i))
           \<and> (1 - unit_roundoff) ^ (n + 1) * (\<Sum>i<n. val (a ! i) * val (a ! i)) \<le> \<alpha>
           \<and> \<alpha> \<le> (1 + unit_roundoff) ^ (n + 1) * (\<Sum>i<n. val (a ! i) * val (a ! i))
           \<and> entry_min / 2 \<le> sqrt \<alpha> \<and> sqrt \<alpha> \<le> 2 ^ 11 * entry_max
           \<and> (1 - unit_roundoff) * sqrt \<alpha> \<le> s \<and> s \<le> (1 + unit_roundoff) * sqrt \<alpha>"
proof -
  let ?u = unit_roundoff
  let ?E = "entry_max * entry_max"
  let ?sq = "\<lambda>i. val (a ! i) * val (a ! i)"
  define X where "X = (\<Sum>i<n. ?sq i)"
  have n1: "n + 1 \<le> 2 ^ 21" using n by simp
  have "\<forall>i<n. moderate (a ! i) \<and> moderate (a ! i)" using mod by simp
  from dsum_bounds [OF this n] obtain \<alpha> where run: "dsum a a n = Fin \<alpha>"
    and up0: "\<bar>\<alpha>\<bar> \<le> (1 + ?u) ^ (n + 1) * (\<Sum>i<n. \<bar>?sq i\<bar>)"
    and lo0: "(\<forall>i<n. 0 \<le> ?sq i) \<longrightarrow> (1 - ?u) ^ (n + 1) * (\<Sum>i<n. ?sq i) \<le> \<alpha>"
    by blast
  have lo: "(1 - ?u) ^ (n + 1) * X \<le> \<alpha>" using lo0 by (simp add: X_def)
  have "\<alpha> \<le> \<bar>\<alpha>\<bar>" by simp
  with up0 have up: "\<alpha> \<le> (1 + ?u) ^ (n + 1) * X" by (simp add: X_def)
  from nz obtain j where j: "j < n" "a ! j \<noteq> Fin 0" by blast
  have mj: "moderate (a ! j)" using mod j(1) by simp
  have "val (a ! j) \<noteq> 0" using moderate_val(1) [OF mj] j(2) by auto
  with moderate_val(2) [OF mj] have vj: "entry_min \<le> \<bar>val (a ! j)\<bar>" by simp
  have "entry_min * entry_min \<le> \<bar>val (a ! j)\<bar> * \<bar>val (a ! j)\<bar>"
    using vj entry_consts(1) by (intro mult_mono) simp_all
  also have "\<dots> = ?sq j" by simp
  also have "\<dots> \<le> X" unfolding X_def using j(1) by (intro member_le_sum) simp_all
  finally have Xlo: "entry_min * entry_min \<le> X" .
  have emin2: "0 < entry_min * entry_min" using entry_consts(1) by simp
  have X0: "0 < X" using Xlo emin2 by linarith
  have each: "?sq i \<le> ?E" if "i < n" for i
  proof -
    from mod that have m: "moderate (a ! i)" by simp
    have "\<bar>?sq i\<bar> \<le> ?E" using product_range(1) [OF moderate_val(2) [OF m] moderate_val(2) [OF m]] .
    then show ?thesis by linarith
  qed
  have Xup: "X \<le> real n * ?E"
    unfolding X_def using sum_bounded_above [of "{..<n}" ?sq ?E] each by simp
  have E: "0 \<le> ?E" using entry_consts(2) by simp
  have "real n \<le> real (2 ^ 20)" using n by (simp only: of_nat_le_iff)
  then have "real n \<le> 2 ^ 20" by simp
  then have "real n * ?E \<le> 2 ^ 20 * ?E" using E by (rule mult_right_mono)
  with Xup have Xup': "X \<le> 2 ^ 20 * ?E" by linarith
  have "X / 2 \<le> (1 - ?u) ^ (n + 1) * X"
    using power_factors(2) [OF n1] X0 mult_right_mono [of "1 / 2" "(1 - ?u) ^ (n + 1)" X] by simp
  with lo have alo: "X / 2 \<le> \<alpha>" by linarith
  then have a0: "0 < \<alpha>" using X0 by linarith
  have "(1 + ?u) ^ (n + 1) * X \<le> 2 * X"
    using power_factors(1) [OF n1] X0 by (intro mult_right_mono) simp_all
  with up Xup' have aup: "\<alpha> \<le> 2 ^ 21 * ?E" by simp
  have slo: "entry_min / 2 \<le> sqrt \<alpha>"
  proof (rule real_le_rsqrt)
    have "(entry_min / 2)\<^sup>2 = entry_min * entry_min / 4" by (simp add: power2_eq_square)
    also have "\<dots> \<le> entry_min * entry_min / 2" using emin2 by simp
    also have "\<dots> \<le> X / 2" using Xlo by simp
    also have "\<dots> \<le> \<alpha>" by (rule alo)
    finally show "(entry_min / 2)\<^sup>2 \<le> \<alpha>" .
  qed
  have sup: "sqrt \<alpha> \<le> 2 ^ 11 * entry_max"
  proof (rule real_le_lsqrt)
    show "0 \<le> 2 ^ 11 * entry_max" using entry_consts(2) by simp
    have "(2 ^ 11 * entry_max)\<^sup>2 = 2 ^ 22 * ?E" by (simp add: power2_eq_square)
    moreover have "2 ^ 21 * ?E \<le> 2 ^ 22 * ?E" using E by (intro mult_right_mono) simp_all
    ultimately show "\<alpha> \<le> (2 ^ 11 * entry_max)\<^sup>2" using aup by linarith
  qed
  have s0: "0 \<le> sqrt \<alpha>" using a0 by simp
  have r1: "min_normal \<le> \<bar>sqrt \<alpha>\<bar>" using slo entry_consts_sqrt(1) s0 by linarith
  have r2: "\<bar>sqrt \<alpha>\<bar> \<le> overflow_threshold / 2" using sup entry_consts_sqrt(2) s0 by linarith
  define s where "s = rnd (sqrt \<alpha>)"
  have conv: "to_double (sqrt \<alpha>) = Fin s" and err: "\<bar>s - sqrt \<alpha>\<bar> \<le> ?u * \<bar>sqrt \<alpha>\<bar>"
    using rnd_range [OF r1 r2] by (simp_all add: s_def)
  have root: "fsqrt (Fin \<alpha>) = Fin s" using a0 conv by simp
  have l: "(1 - ?u) * sqrt \<alpha> \<le> s" using err s0 by (rule rel_err_lower)
  have "\<bar>s\<bar> \<le> (1 + ?u) * \<bar>sqrt \<alpha>\<bar>" using err by (rule rel_err_upper)
  then have h: "s \<le> (1 + ?u) * sqrt \<alpha>" using s0 by simp
  from run root a0 X0 lo up slo sup l h show ?thesis unfolding X_def by blast
qed

lemma magnitude_bounds:
  assumes a: "entry_min / 2 \<le> ra" "ra \<le> 2 ^ 11 * entry_max"
             "(1 - unit_roundoff) * ra \<le> sa" "sa \<le> (1 + unit_roundoff) * ra"
    and b: "entry_min / 2 \<le> rb" "rb \<le> 2 ^ 11 * entry_max"
           "(1 - unit_roundoff) * rb \<le> sb" "sb \<le> (1 + unit_roundoff) * rb"
  shows "\<exists>m. fmul (Fin sa) (Fin sb) = Fin m \<and> 0 < m
           \<and> (1 - unit_roundoff) * (sa * sb) \<le> m \<and> m \<le> (1 + unit_roundoff) * (sa * sb)
           \<and> 0 < sa \<and> 0 < sb"
proof -
  let ?u = unit_roundoff
  have u: "0 < ?u" "?u < 1" by (rule unit_roundoff_bounds)+
  have L: "1 / 2 \<le> 1 - ?u" using power_factors(2) [of 1] by simp
  have U: "1 + ?u \<le> 2" using u by simp
  have em: "0 < entry_min" "0 < entry_max" by (rule entry_consts)+
  have ra0: "0 < ra" and rb0: "0 < rb" using a(1) b(1) em by linarith+
  have "ra / 2 \<le> (1 - ?u) * ra" using L ra0 mult_right_mono [of "1 / 2" "1 - ?u" ra] by simp
  with a(1,3) have sa_lo: "entry_min / 4 \<le> sa" by linarith
  have "rb / 2 \<le> (1 - ?u) * rb" using L rb0 mult_right_mono [of "1 / 2" "1 - ?u" rb] by simp
  with b(1,3) have sb_lo: "entry_min / 4 \<le> sb" by linarith
  have sa0: "0 < sa" and sb0: "0 < sb" using sa_lo sb_lo em by linarith+
  have plo: "entry_min / 4 * (entry_min / 4) \<le> sa * sb"
    using sa_lo sb_lo em by (intro mult_mono) simp_all
  have U2: "(1 + ?u) * (1 + ?u) \<le> 2"
    using power_factors(1) [of 2] by (simp add: power2_eq_square)
  have "sa * sb \<le> ((1 + ?u) * ra) * ((1 + ?u) * rb)"
    using a(4) b(4) sa0 sb0 ra0 rb0 u by (intro mult_mono) simp_all
  also have "\<dots> = ((1 + ?u) * (1 + ?u)) * (ra * rb)" by (simp only: mult_ac)
  also have "\<dots> \<le> 2 * (ra * rb)" using U2 ra0 rb0 by (intro mult_right_mono) simp_all
  also have "ra * rb \<le> (2 ^ 11 * entry_max) * (2 ^ 11 * entry_max)"
    using a(2) b(2) ra0 rb0 em by (intro mult_mono) simp_all
  finally have "sa * sb \<le> 2 ^ 23 * (entry_max * entry_max)" by simp
  with entry_consts_sqrt(3) have pup: "sa * sb \<le> overflow_threshold / 2" by linarith
  have p0: "0 < sa * sb" using sa0 sb0 by simp
  have r1: "min_normal \<le> \<bar>sa * sb\<bar>" using plo entry_consts_sqrt(4) p0 by simp
  have r2: "\<bar>sa * sb\<bar> \<le> overflow_threshold / 2" using pup p0 by simp
  define m where "m = rnd (sa * sb)"
  have conv: "to_double (sa * sb) = Fin m" and err: "\<bar>m - sa * sb\<bar> \<le> ?u * \<bar>sa * sb\<bar>"
    using rnd_range [OF r1 r2] by (simp_all add: m_def)
  have mul: "fmul (Fin sa) (Fin sb) = Fin m" using conv by simp
  have l: "(1 - ?u) * (sa * sb) \<le> m" using err p0 by (intro rel_err_lower) simp_all
  have "\<bar>m\<bar> \<le> (1 + ?u) * \<bar>sa * sb\<bar>" using err by (rule rel_err_upper)
  then have h: "m \<le> (1 + ?u) * (sa * sb)" using p0 by simp
  have "0 < (1 - ?u) * (sa * sb)" using u p0 by simp
  with l have m0: "0 < m" by linarith
  from mul m0 l h sa0 sb0 show ?thesis by blast
qed

subsection \<open>The quotient\<close>

lemma cauchy_abs:
  fixes f g :: "nat \<Rightarrow> real"
  shows "(\<Sum>i<n. \<bar>f i * g i\<bar>) \<le> sqrt (\<Sum>i<n. f i * f i) * sqrt (\<Sum>i<n. g i * g i)"
proof -
  let ?P = "\<Sum>i<n. \<bar>f i * g i\<bar>"
  have "(\<Sum>i<n. \<bar>f i\<bar> * \<bar>g i\<bar>)\<^sup>2 \<le> (\<Sum>i<n. \<bar>f i\<bar> * \<bar>f i\<bar>) * (\<Sum>i<n. \<bar>g i\<bar> * \<bar>g i\<bar>)"
    by (rule cauchy_sums)
  then have "?P\<^sup>2 \<le> (\<Sum>i<n. f i * f i) * (\<Sum>i<n. g i * g i)"
    by (simp add: abs_mult)
  then have "sqrt (?P\<^sup>2) \<le> sqrt ((\<Sum>i<n. f i * f i) * (\<Sum>i<n. g i * g i))"
    by (rule real_sqrt_le_mono)
  moreover have "0 \<le> ?P" by (simp add: sum_nonneg)
  ultimately show ?thesis by (simp add: real_sqrt_mult)
qed

lemma quotient_bound:
  fixes X Y P d \<alpha> \<beta> sa sb m :: real
  assumes X: "0 < X" "0 < Y" and cs: "P \<le> sqrt X * sqrt Y"
    and d: "\<bar>d\<bar> \<le> (1 + unit_roundoff) ^ (n + 1) * P"
    and al: "(1 - unit_roundoff) ^ (n + 1) * X \<le> \<alpha>"
    and be: "(1 - unit_roundoff) ^ (n + 1) * Y \<le> \<beta>"
    and sa: "(1 - unit_roundoff) * sqrt \<alpha> \<le> sa"
    and sb: "(1 - unit_roundoff) * sqrt \<beta> \<le> sb"
    and m: "(1 - unit_roundoff) * (sa * sb) \<le> m"
  shows "\<bar>d\<bar> / m \<le> (1 + unit_roundoff) ^ (n + 1) / (1 - unit_roundoff) ^ (n + 4)"
proof -
  let ?u = unit_roundoff
  define L where "L = 1 - ?u"
  define U where "U = 1 + ?u"
  define c where "c = L ^ (n + 1)"
  define R where "R = sqrt X * sqrt Y"
  have u: "0 < ?u" "?u < 1" by (rule unit_roundoff_bounds)+
  have L: "0 < L" and U: "0 < U" using u by (simp_all add: L_def U_def)
  have c: "0 < c" using L by (simp add: c_def)
  have R: "0 < R" using X by (simp add: R_def)
  have sX: "0 < sqrt X" and sY: "0 < sqrt Y" using X by simp_all
  have sc: "0 < sqrt c" using c by simp
  have "sqrt (c * X) \<le> sqrt \<alpha>" using al unfolding c_def L_def by (rule real_sqrt_le_mono)
  then have ra: "sqrt c * sqrt X \<le> sqrt \<alpha>" by (simp only: real_sqrt_mult)
  have "sqrt (c * Y) \<le> sqrt \<beta>" using be unfolding c_def L_def by (rule real_sqrt_le_mono)
  then have rb: "sqrt c * sqrt Y \<le> sqrt \<beta>" by (simp only: real_sqrt_mult)
  have cc: "sqrt c * sqrt c = c" using c by simp
  have pa: "0 < sqrt c * sqrt X" and pb: "0 < sqrt c * sqrt Y" using sc sX sY by simp_all
  have sa0: "0 \<le> sqrt \<alpha>" using ra pa by linarith
  have sb0: "0 \<le> sqrt c * sqrt Y" using pb by linarith
  have "(sqrt c * sqrt X) * (sqrt c * sqrt Y) \<le> sqrt \<alpha> * sqrt \<beta>"
    using ra rb sa0 sb0 by (rule mult_mono)
  moreover have "(sqrt c * sqrt X) * (sqrt c * sqrt Y) = (sqrt c * sqrt c) * R"
    unfolding R_def by (simp only: mult_ac)
  ultimately have rr: "c * R \<le> sqrt \<alpha> * sqrt \<beta>" by (simp only: cc)
  have "0 < c * X" "0 < c * Y" using c X by simp_all
  then have "0 < \<alpha>" "0 < \<beta>" using al be unfolding c_def L_def by linarith+
  then have ra0: "0 \<le> L * sqrt \<alpha>" and rb0: "0 \<le> L * sqrt \<beta>" using L by simp_all
  have sa': "L * sqrt \<alpha> \<le> sa" and sb': "L * sqrt \<beta> \<le> sb"
    using sa sb by (simp_all only: L_def)
  have sap: "0 \<le> sa" using sa' ra0 by linarith
  have "(L * sqrt \<alpha>) * (L * sqrt \<beta>) \<le> sa * sb"
    using sa' sb' sap rb0 by (rule mult_mono)
  moreover have "(L * sqrt \<alpha>) * (L * sqrt \<beta>) = (L * L) * (sqrt \<alpha> * sqrt \<beta>)"
    by (simp only: mult_ac)
  moreover have "(L * L) * (c * R) \<le> (L * L) * (sqrt \<alpha> * sqrt \<beta>)"
    using rr L by (intro mult_left_mono) simp_all
  ultimately have ss: "(L * L) * (c * R) \<le> sa * sb" by linarith
  have "L * ((L * L) * (c * R)) \<le> L * (sa * sb)" using ss L by (intro mult_left_mono) simp_all
  with m have "L * ((L * L) * (c * R)) \<le> m" unfolding L_def by linarith
  moreover have "L * ((L * L) * (c * R)) = L ^ (n + 4) * R"
    by (simp add: c_def power_add power2_eq_square power3_eq_cube numeral_eq_Suc)
  ultimately have mlo: "L ^ (n + 4) * R \<le> m" by simp
  have den: "0 < L ^ (n + 4) * R" using L R by simp
  have "U ^ (n + 1) * P \<le> U ^ (n + 1) * R"
    using cs U unfolding R_def by (intro mult_left_mono) simp_all
  with d have num: "\<bar>d\<bar> \<le> U ^ (n + 1) * R" unfolding U_def by linarith
  have "\<bar>d\<bar> / m \<le> (U ^ (n + 1) * R) / (L ^ (n + 4) * R)"
  proof (rule frac_le [OF _ num den mlo])
    show "0 \<le> U ^ (n + 1) * R" using U R by (intro mult_nonneg_nonneg) simp_all
  qed
  also have "\<dots> = U ^ (n + 1) / L ^ (n + 4)" using R by simp
  finally show ?thesis unfolding U_def L_def .
qed

lemma cosine_bound_core:
  assumes len: "length a = n" "length b = n" and n: "n \<le> 2 ^ 20"
    and mod: "\<forall>i<n. moderate (a ! i) \<and> moderate (b ! i)"
    and nza: "\<exists>i<n. a ! i \<noteq> Fin 0" and nzb: "\<exists>i<n. b ! i \<noteq> Fin 0"
  shows "\<exists>c. cosineSimilarity a b = Inr (Fin c) \<and> \<bar>c\<bar> \<le> 1 + real (n + 3) / 2 ^ 51"
proof -
  let ?u = unit_roundoff
  let ?x = "\<lambda>i. val (a ! i)"
  let ?y = "\<lambda>i. val (b ! i)"
  define X where "X = (\<Sum>i<n. ?x i * ?x i)"
  define Y where "Y = (\<Sum>i<n. ?y i * ?y i)"
  define P where "P = (\<Sum>i<n. \<bar>?x i * ?y i\<bar>)"
  have u: "0 < ?u" "?u < 1" by (rule unit_roundoff_bounds)+
  from dsum_bounds [OF mod n] obtain d where dot: "dsum a b n = Fin d"
    and dup: "\<bar>d\<bar> \<le> (1 + ?u) ^ (n + 1) * P"
    unfolding P_def by blast
  have moda: "\<forall>i<n. moderate (a ! i)" and modb: "\<forall>i<n. moderate (b ! i)" using mod by simp_all
  from norm_sqrt [OF moda n nza] obtain \<alpha> sa where na: "dsum a a n = Fin \<alpha>"
    and ra: "fsqrt (Fin \<alpha>) = Fin sa" and X0: "0 < X"
    and alo: "(1 - ?u) ^ (n + 1) * X \<le> \<alpha>"
    and a1: "entry_min / 2 \<le> sqrt \<alpha>" and a2: "sqrt \<alpha> \<le> 2 ^ 11 * entry_max"
    and a3: "(1 - ?u) * sqrt \<alpha> \<le> sa" and a4: "sa \<le> (1 + ?u) * sqrt \<alpha>"
    unfolding X_def by blast
  from norm_sqrt [OF modb n nzb] obtain \<beta> sb where nb: "dsum b b n = Fin \<beta>"
    and rb: "fsqrt (Fin \<beta>) = Fin sb" and Y0: "0 < Y"
    and blo: "(1 - ?u) ^ (n + 1) * Y \<le> \<beta>"
    and b1: "entry_min / 2 \<le> sqrt \<beta>" and b2: "sqrt \<beta> \<le> 2 ^ 11 * entry_max"
    and b3: "(1 - ?u) * sqrt \<beta> \<le> sb" and b4: "sb \<le> (1 + ?u) * sqrt \<beta>"
    unfolding Y_def by blast
  from magnitude_bounds [OF a1 a2 a3 a4 b1 b2 b3 b4] obtain m
    where mag: "fmul (Fin sa) (Fin sb) = Fin m" and m0: "0 < m"
      and mlo: "(1 - ?u) * (sa * sb) \<le> m"
    by blast
  have cs: "P \<le> sqrt X * sqrt Y" unfolding P_def X_def Y_def by (rule cauchy_abs)
  define K where "K = (1 + ?u) ^ (n + 1) / (1 - ?u) ^ (n + 4)"
  have q: "\<bar>d\<bar> / m \<le> K"
    unfolding K_def using X0 Y0 cs dup alo blo a3 b3 mlo by (rule quotient_bound)
  have absq: "\<bar>d / m\<bar> \<le> K" using q m0 by simp
  have n4: "n + 4 \<le> 2 ^ 21" "n + 1 \<le> 2 ^ 21" using n by simp_all
  have "(1 - ?u) ^ (n + 4) \<le> (1 + ?u) ^ (n + 1)"
    using power_factors(4) [OF n4(1)] power_factors(3) [OF n4(2)] by linarith
  then have K1: "1 \<le> K"
    unfolding K_def using power_factors(5) [OF n4(1)] by (simp add: pos_le_divide_eq)
  define c where "c = rnd (d / m)"
  have "\<bar>c\<bar> \<le> (1 + ?u) * K" unfolding c_def using absq K1 by (rule rnd_bounded)
  also have "(1 + ?u) * K = (1 + ?u) ^ (n + 2) / (1 - ?u) ^ (n + 4)"
    by (simp add: K_def)
  also have "\<dots> \<le> 1 + real (n + 3) / 2 ^ 51" using n by (rule tolerance_factor)
  finally have bound: "\<bar>c\<bar> \<le> 1 + real (n + 3) / 2 ^ 51" .
  have "real (n + 3) \<le> real (2 ^ 20 + 3)" using n by (simp only: of_nat_le_iff)
  then have "real (n + 3) / 2 ^ 51 \<le> real (2 ^ 20 + 3) / 2 ^ 51" by (rule divide_right_mono) simp
  also have "\<dots> \<le> 1" by simp
  finally have "\<bar>c\<bar> \<le> 4" using bound by linarith
  then have "to_double (d / m) = Fin c" unfolding c_def by (rule to_double_small)
  then have quot: "fdiv (Fin d) (Fin m) = Fin c" using m0 by simp
  have pos: "fpositive (Fin m)" using m0 by simp
  have "length a = length b" using len by simp
  from cosineSimilarity_dsum [OF this]
  have "cosineSimilarity a b = Inr (Fin c)"
    by (simp only: len dot na nb ra rb mag pos quot if_True)
  with bound show ?thesis by blast
qed

lemma self_consts: "(8::real) \<le> overflow_threshold / 2"
  by (simp add: overflow_threshold_def)

lemma cosine_self_core:
  assumes len: "length a = n" and n: "n \<le> 2 ^ 20"
    and mod: "\<forall>i<n. moderate (a ! i)" and nz: "\<exists>i<n. a ! i \<noteq> Fin 0"
  shows "\<exists>c. cosineSimilarity a a = Inr (Fin c) \<and> \<bar>c - 1\<bar> \<le> 1 / 2 ^ 50"
proof -
  let ?u = unit_roundoff
  define L where "L = 1 - ?u"
  define U where "U = 1 + ?u"
  have u: "0 < ?u" "?u < 1" by (rule unit_roundoff_bounds)+
  have L: "0 < L" "1 / 2 \<le> L" using power_factors(2) [of 1] u by (simp_all add: L_def)
  have U: "0 < U" "U \<le> 2" using u by (simp_all add: U_def)
  from norm_sqrt [OF mod n nz] obtain \<alpha> s where na: "dsum a a n = Fin \<alpha>"
    and rt: "fsqrt (Fin \<alpha>) = Fin s" and a0: "0 < \<alpha>"
    and a1: "entry_min / 2 \<le> sqrt \<alpha>" and a2: "sqrt \<alpha> \<le> 2 ^ 11 * entry_max"
    and a3: "L * sqrt \<alpha> \<le> s" and a4: "s \<le> U * sqrt \<alpha>"
    unfolding L_def U_def by blast
  from magnitude_bounds [OF a1 a2 a3 [unfolded L_def] a4 [unfolded U_def]
      a1 a2 a3 [unfolded L_def] a4 [unfolded U_def]] obtain m
    where mag: "fmul (Fin s) (Fin s) = Fin m" and m0: "0 < m"
      and mlo: "L * (s * s) \<le> m" and mup: "m \<le> U * (s * s)" and s0: "0 < s"
    unfolding L_def U_def by blast
  have r0: "0 < sqrt \<alpha>" using a0 by simp
  have rr: "sqrt \<alpha> * sqrt \<alpha> = \<alpha>" using a0 by simp
  have lr0: "0 \<le> L * sqrt \<alpha>" using L(1) r0 by simp
  have s0': "0 \<le> s" using s0 by simp
  have "(L * sqrt \<alpha>) * (L * sqrt \<alpha>) \<le> s * s"
    using a3 a3 s0' lr0 by (rule mult_mono)
  moreover have "(L * sqrt \<alpha>) * (L * sqrt \<alpha>) = (L * L) * (sqrt \<alpha> * sqrt \<alpha>)"
    by (simp only: mult_ac)
  ultimately have slo: "(L * L) * \<alpha> \<le> s * s" by (simp only: rr)
  have ur0: "0 \<le> U * sqrt \<alpha>" using U(1) r0 by simp
  have "s * s \<le> (U * sqrt \<alpha>) * (U * sqrt \<alpha>)"
    using a4 a4 ur0 s0' by (rule mult_mono)
  moreover have "(U * sqrt \<alpha>) * (U * sqrt \<alpha>) = (U * U) * (sqrt \<alpha> * sqrt \<alpha>)"
    by (simp only: mult_ac)
  ultimately have sup: "s * s \<le> (U * U) * \<alpha>" by (simp only: rr)
  have "L * ((L * L) * \<alpha>) \<le> L * (s * s)" using slo L(1) by (intro mult_left_mono) simp_all
  with mlo have mlo': "L ^ 3 * \<alpha> \<le> m" by (simp add: power3_eq_cube mult_ac)
  have "U * (s * s) \<le> U * ((U * U) * \<alpha>)" using sup U(1) by (intro mult_left_mono) simp_all
  with mup have mup': "m \<le> U ^ 3 * \<alpha>" by (simp add: power3_eq_cube mult_ac)
  define q where "q = \<alpha> / m"
  have L3: "0 < L ^ 3 * \<alpha>" using L(1) a0 by simp
  have a0': "0 \<le> \<alpha>" "\<alpha> \<le> \<alpha>" using a0 by simp_all
  have "\<alpha> / m \<le> \<alpha> / (L ^ 3 * \<alpha>)" by (rule frac_le [OF a0' L3 mlo'])
  then have qup: "q \<le> 1 / L ^ 3" using a0 by (simp add: q_def)
  have "\<alpha> / (U ^ 3 * \<alpha>) \<le> \<alpha> / m" by (rule frac_le [OF a0' m0 mup'])
  then have qlo: "1 / U ^ 3 \<le> q" using a0 by (simp add: q_def)
  have q0: "0 < q" using a0 m0 by (simp add: q_def)
  have "U ^ 3 \<le> 2 ^ 3" using U by (intro power_mono) simp_all
  then have U8: "U ^ 3 \<le> 8" by simp
  have U3: "0 < U ^ 3" using U(1) by simp
  have "1 / 8 \<le> 1 / U ^ 3" using U8 U3 by (simp add: field_simps)
  with qlo have q8: "1 / 8 \<le> q" by linarith
  have "(1 / 2) ^ 3 \<le> L ^ 3" using L by (intro power_mono) simp_all
  then have L8: "1 \<le> 8 * L ^ 3" by (simp add: power_divide)
  have L3': "0 < L ^ 3" using L(1) by simp
  have "1 / L ^ 3 \<le> 8" using L8 L3' by (simp add: field_simps)
  with qup have qle: "q \<le> 8" by linarith
  have r1: "min_normal \<le> \<bar>q\<bar>" using q8 subnormal_consts(2) q0 by linarith
  have r2: "\<bar>q\<bar> \<le> overflow_threshold / 2" using qle self_consts q0 by linarith
  define c where "c = rnd q"
  have conv: "to_double q = Fin c" and err: "\<bar>c - q\<bar> \<le> ?u * \<bar>q\<bar>"
    using rnd_range [OF r1 r2] by (simp_all add: c_def)
  have "L * q \<le> c" unfolding L_def using err q0 by (intro rel_err_lower) simp_all
  moreover have "L * (1 / U ^ 3) \<le> L * q" using qlo L(1) by (intro mult_left_mono) simp_all
  ultimately have clo: "L / U ^ 3 \<le> c" by simp
  have "\<bar>c\<bar> \<le> U * \<bar>q\<bar>" unfolding U_def using err by (rule rel_err_upper)
  then have "c \<le> U * q" using q0 by simp
  moreover have "U * q \<le> U * (1 / L ^ 3)" using qup U(1) by (intro mult_left_mono) simp_all
  ultimately have cup: "c \<le> U / L ^ 3" by simp
  have bound: "\<bar>c - 1\<bar> \<le> 1 / 2 ^ 50"
    using clo cup self_factor unfolding L_def U_def by linarith
  have quot: "fdiv (Fin \<alpha>) (Fin m) = Fin c" using m0 conv by (simp add: q_def)
  have pos: "fpositive (Fin m)" using m0 by simp
  from cosineSimilarity_dsum [of a a]
  have "cosineSimilarity a a = Inr (Fin c)"
    by (simp only: len na rt mag pos quot if_True)
  with bound show ?thesis by blast
qed

subsection \<open>Overflow and underflow\<close>

lemma rnd_pow2:
  assumes "- 1022 \<le> k"
  shows "rnd (2 powi k) = 2 powi k"
proof -
  have pos: "\<bar>(2::real) powi k\<bar> = 2 powi k" by simp
  have lt: "(2::real) powi k < 2 powi (k + 1)" by (intro power_int_strict_increasing) simp_all
  have "(2::real) powi k = 2 powi (52 + (k - 52))" by simp
  also have "\<dots> = 2 powi 52 * 2 powi (k - 52)" by (rule power_int_add) simp
  also have "(2::real) powi 52 = of_int (2 ^ 52)" by simp
  finally have grid: "(2::real) powi k = of_int (2 ^ 52) * 2 powi (k - 52)" .
  show ?thesis
    by (rule rnd_representable [of k _ "2 ^ 52"]) (simp_all only: pos lt assms order_refl grid [symmetric])
qed

lemma to_double_overflow:
  assumes "1024 \<le> k"
  shows "to_double (2 powi k) = PInf"
proof -
  have "rnd (2 powi k) = 2 powi k" using assms by (intro rnd_pow2) simp
  moreover have "overflow_threshold \<le> 2 powi k"
    unfolding overflow_threshold_def using assms by (intro power_int_increasing) simp_all
  ultimately show ?thesis by (simp add: to_double_def)
qed

lemma rnd_underflow:
  assumes "k < - 1075"
  shows "rnd (2 powi k) = 0"
proof -
  let ?x = "(2::real) powi k"
  have nz: "?x \<noteq> 0" by simp
  have "?x < 2 powi (- 1022)" using assms by (intro power_int_strict_increasing) simp_all
  then have sub: "\<bar>?x\<bar> < min_normal" by (simp add: min_normal_def)
  have e: "ulp_exp ?x = - 1074" using nz sub by (rule ulp_exp_subnormal)
  have "?x / 2 powi (- 1074) = 2 powi (k - (- 1074))" by (rule power_int_diff [symmetric]) simp
  also have "\<dots> < 2 powi (- 1)" using assms by (intro power_int_strict_increasing) simp_all
  also have "\<dots> = 1 / 2" by (simp add: power_int_minus)
  finally have up: "?x / 2 powi (- 1074) < of_int 0 + 1 / 2" by simp
  have "0 < ?x / 2 powi (- 1074)" by (rule divide_pos_pos) (rule pow2_pos)+
  then have lo: "of_int 0 - 1 / 2 < ?x / 2 powi (- 1074)" by (simp only: of_int_0)
  have "round_even (?x / 2 powi (- 1074)) = 0" using lo up by (rule round_even_eq)
  then show ?thesis unfolding rnd_def e by simp
qed

lemma cosine_huge: "cosineSimilarity [Fin (2 powi 600)] [Fin (2 powi 600)] = Inr NaN"
proof -
  let ?h = "Fin (2 powi 600)"
  have "(2::real) powi 600 * 2 powi 600 = 2 powi (600 + 600)" by (rule power_int_add [symmetric]) simp
  then have "fmul ?h ?h = to_double (2 powi (600 + 600))" by (simp only: fmul.simps)
  also have "\<dots> = PInf" by (rule to_double_overflow) simp
  finally have mul: "fmul ?h ?h = PInf" .
  have sum: "dsum [?h] [?h] (length [?h]) = PInf"
    by (simp only: list.size One_nat_def dsum.simps nth_Cons_0 mul add_0 fadd.simps)
  show ?thesis
    by (simp only: cosineSimilarity_dsum [of "[?h]" "[?h]"] sum fsqrt.simps fmul.simps
        fpositive.simps fdiv.simps if_True)
qed

lemma cosine_tiny: "cosineSimilarity [Fin (2 powi (- 600))] [Fin (2 powi (- 600))] = Inr (Fin 0)"
proof -
  let ?t = "Fin (2 powi (- 600))"
  have "(2::real) powi (- 600) * 2 powi (- 600) = 2 powi (- 600 + - 600)"
    by (rule power_int_add [symmetric]) simp
  then have "fmul ?t ?t = to_double (2 powi (- 600 + - 600))" by (simp only: fmul.simps)
  also have "rnd (2 powi (- 600 + - 600)) = 0" by (rule rnd_underflow) simp
  then have "to_double (2 powi (- 600 + - 600)) = Fin 0"
    using overflow_threshold_pos by (simp add: to_double_def)
  finally have mul: "fmul ?t ?t = Fin 0" .
  have sum: "dsum [?t] [?t] (length [?t]) = Fin 0"
    by (simp only: list.size One_nat_def dsum.simps nth_Cons_0 mul add_0 fadd.simps to_double_0)
  show ?thesis
    by (simp only: cosineSimilarity_dsum [of "[?t]" "[?t]"] sum fsqrt_zero fpositive_zero_left if_False)
qed

text \<open>
  Claim C2, amended. In double precision, for vectors \<open>a\<close> and \<open>b\<close> of equal length:
  \<open>cosineSimilarity\<close> returns 0, without dividing, when every entry of \<open>a\<close> or every entry
  of \<open>b\<close> is zero. When every entry is zero or of magnitude between \<open>2^-500\<close> and \<open>2^500\<close>
  and there are at most \<open>2^20\<close> of them, it returns a finite number \<open>c\<close> with
  \<open>\<bar>c\<bar> \<le> 1 + (n + 3) / 2^51\<close>, where \<open>n\<close> is the length; and on \<open>(a, a)\<close> with some nonzero
  entry, \<open>c\<close> is within \<open>2^-50\<close> of \<open>1\<close>.
\<close>

theorem cosineSimilarity_tolerance:
  assumes len: "length a = length b"
  shows "((\<forall>d\<in>set a. d = Fin 0) \<or> (\<forall>d\<in>set b. d = Fin 0) \<longrightarrow> cosineSimilarity a b = Inr (Fin 0))
         \<and> ((\<forall>d\<in>set a \<union> set b. moderate d) \<and> length a \<le> 2 ^ 20 \<longrightarrow>
              (\<exists>c. cosineSimilarity a b = Inr (Fin c)
                  \<and> \<bar>c\<bar> \<le> 1 + real (length a + 3) / 2 ^ 51
                  \<and> (a = b \<and> (\<exists>d\<in>set a. d \<noteq> Fin 0) \<longrightarrow> \<bar>c - 1\<bar> \<le> 1 / 2 ^ 50)))"
proof (intro conjI impI)
  assume "(\<forall>d\<in>set a. d = Fin 0) \<or> (\<forall>d\<in>set b. d = Fin 0)"
  with len show "cosineSimilarity a b = Inr (Fin 0)" by (rule cosineSimilarity_zero)
next
  assume hyp: "(\<forall>d\<in>set a \<union> set b. moderate d) \<and> length a \<le> 2 ^ 20"
  define n where "n = length a"
  have la: "length a = n" and lb: "length b = n" using len by (simp_all add: n_def)
  have n: "n \<le> 2 ^ 20" using hyp by (simp add: n_def)
  have mod: "\<forall>i<n. moderate (a ! i) \<and> moderate (b ! i)" using hyp la lb by simp
  show "\<exists>c. cosineSimilarity a b = Inr (Fin c)
          \<and> \<bar>c\<bar> \<le> 1 + real (length a + 3) / 2 ^ 51
          \<and> (a = b \<and> (\<exists>d\<in>set a. d \<noteq> Fin 0) \<longrightarrow> \<bar>c - 1\<bar> \<le> 1 / 2 ^ 50)"
  proof (cases "(\<forall>d\<in>set a. d = Fin 0) \<or> (\<forall>d\<in>set b. d = Fin 0)")
    case True
    with len have "cosineSimilarity a b = Inr (Fin 0)" by (rule cosineSimilarity_zero)
    moreover have "\<not> (a = b \<and> (\<exists>d\<in>set a. d \<noteq> Fin 0))" using True by blast
    ultimately show ?thesis by (intro exI [of _ 0]) simp
  next
    case False
    then have "\<exists>d\<in>set a. d \<noteq> Fin 0" and "\<exists>d\<in>set b. d \<noteq> Fin 0" by blast+
    then have nza: "\<exists>i<n. a ! i \<noteq> Fin 0" and nzb: "\<exists>i<n. b ! i \<noteq> Fin 0"
      using la lb by (metis in_set_conv_nth)+
    from cosine_bound_core [OF la lb n mod nza nzb] obtain c
      where run: "cosineSimilarity a b = Inr (Fin c)" and bound: "\<bar>c\<bar> \<le> 1 + real (n + 3) / 2 ^ 51"
      by blast
    have "\<bar>c - 1\<bar> \<le> 1 / 2 ^ 50" if "a = b"
    proof -
      have "\<forall>i<n. moderate (a ! i)" using mod by simp
      from cosine_self_core [OF la n this nza] obtain c'
        where "cosineSimilarity a a = Inr (Fin c')" "\<bar>c' - 1\<bar> \<le> 1 / 2 ^ 50"
        by blast
      with run that show ?thesis by simp
    qed
    with run bound show ?thesis unfolding n_def by blast
  qed
qed

theorem cosineSimilarity_tolerance_witness:
  "length [Fin 1, Fin 1, Fin 1] = length [Fin 1, Fin 1, Fin 1] \<and> moderate (Fin 1)
     \<and> (\<exists>c. cosineSimilarity [Fin 1, Fin 1, Fin 1] [Fin 1, Fin 1, Fin 1] = Inr (Fin c)
            \<and> \<bar>c\<bar> \<le> 1 + 6 / 2 ^ 51 \<and> \<bar>c - 1\<bar> \<le> 1 / 2 ^ 50)
     \<and> cosineSimilarity [Fin 0, Fin 0] [Fin 3, Fin 4] = Inr (Fin 0)"
  using cosineSimilarity_tolerance [of "[Fin 1, Fin 1, Fin 1]" "[Fin 1, Fin 1, Fin 1]"]
    cosineSimilarity_tolerance [of "[Fin 0, Fin 0]" "[Fin 3, Fin 4]"]
  by (simp add: moderate_def entry_min_def entry_max_def)

text \<open>
  Claim C2 as stated fails in double precision. On the vector \<open>(1, 1, 1)\<close> with itself
  the result is \<open>1 + 2^-52\<close>, which is greater than 1 and not equal to 1. On the nonzero
  vector \<open>(2^600)\<close> with itself the squares overflow and the result is NaN; on the nonzero
  vector \<open>(2^-600)\<close> with itself the squares underflow and the result is 0.
\<close>

theorem cosineSimilarity_bounds_counterexample:
  "cosineSimilarity [Fin 1, Fin 1, Fin 1] [Fin 1, Fin 1, Fin 1] = Inr (Fin (4503599627370497 / 2 ^ 52))
     \<and> (1::real) < 4503599627370497 / 2 ^ 52
     \<and> cosineSimilarity [Fin (2 powi 600)] [Fin (2 powi 600)] = Inr NaN
     \<and> cosineSimilarity [Fin (2 powi (- 600))] [Fin (2 powi (- 600))] = Inr (Fin 0)"
  using cosine_ones cosine_huge cosine_tiny by simp

section \<open>Properties of the retriever\<close>





lemma similarities_length: "similarities q i cs = Inr sims \<Longrightarrow> length sims = length cs"
  by (induction cs arbitrary: i sims) (auto split: sum.splits)









lemma cos10_01: "cosineSimilarity_exact [1, 0] [0, 1] = Inr 0"
  by (simp add: cosineSimilarity_exact_def cosine_step_exact_def upt_rec)

lemma cos10_10: "cosineSimilarity_exact [1, 0] [1, 0] = Inr 1"
  by (simp add: cosineSimilarity_exact_def cosine_step_exact_def upt_rec)





text \<open>
  Claim C9. When the index file cannot be read or does not parse, \<open>loadIndex\<close> gives
  \<open>null\<close> without throwing, and \<open>retrieve\<close> rejects with the error "No RAG index found.
  Please run the ingestion script first." instead of returning an empty result.
\<close>

theorem retrieve_no_index:
  assumes "index_file env = None \<or> (\<exists>data. index_file env = Some data \<and> json_parse env data = None)"
  shows "loadIndex (RAG_INDEX_DRIVER env) (json_parse env) (index_file env) = None
         \<and> retrieve env question k = Inl (Error ''No RAG index found. Please run the ingestion script first.'')"
proof -
  have "loadJsonIndex (json_parse env) (index_file env) = None"
    using assms by (auto simp: loadJsonIndex_def)
  then have "loadIndex (RAG_INDEX_DRIVER env) (json_parse env) (index_file env) = None"
    by (simp add: loadIndex_def loadIndex_switch_def)
  then show ?thesis by (simp add: retrieve_def)
qed

theorem retrieve_no_index_witness:
  "retrieve (demo_env\<lparr>index_file := None\<rparr>) ''trees?'' 5 = Inl (Error ''No RAG index found. Please run the ingestion script first.'')
   \<and> retrieve (demo_env\<lparr>json_parse := (\<lambda>s. None)\<rparr>) ''trees?'' 5 = Inl (Error ''No RAG index found. Please run the ingestion script first.'')"
  using retrieve_no_index [of "demo_env\<lparr>index_file := None\<rparr>" "''trees?''" 5]
        retrieve_no_index [of "demo_env\<lparr>json_parse := (\<lambda>s. None)\<rparr>" "''trees?''" 5]
  by (simp add: demo_env_def)


section \<open>Properties of the route\<close>

lemma strict_retrieve:
  "\<exists>r. retrieve strict_env ''trees?'' 5 = Inr r \<and> \<not> confidence r"
proof -
  have "loadIndex (RAG_INDEX_DRIVER strict_env) (json_parse strict_env) (index_file strict_env)
          = Some demo_index"
    by (simp add: strict_env_def demo_env_def loadIndex_def loadIndex_switch_def loadJsonIndex_def)
  then show ?thesis
    unfolding retrieve_def
    by (simp add: strict_env_def demo_env_def demo_index_def demo_chunk_def cos10_01 cos10_10
          sort_desc_def Let_def slice_def js_index_def averageScore_def)
qed

lemma demo_body_valid: "validateRequest demo_body = None"
  by (simp add: validateRequest_def demo_body_def trim_def is_space_def)

text \<open>
  Claim C1, amended. For a valid request that takes the RAG path and whose retrieval
  returns with confidence false, the response of the route has the answer
  "Not found in VTU context." and empty citations and sources.
\<close>

theorem low_confidence_response:
  assumes "validateRequest body = None"
    and "rq_useRag body = Some True \<or> ENABLE_RAG renv"
    and "rq_question body = Some q"
    and "retrieve (retrieval renv) q (RAG_TOP_K (retrieval renv)) = Inr r"
    and "\<not> confidence r"
  shows "answer (POST renv body) = ''Not found in VTU context.''
         \<and> citations (POST renv body) = [] \<and> resp_sources (POST renv body) = []"
proof -
  have "handleRagPipeline renv q =
          Inr \<lparr>answer = ''Not found in VTU context.'', citations = [], resp_sources = [],
               debug = Some \<lparr>scores = map score (results r), retrieval_confidence = False,
                              dbg_search_time_ms = search_time_ms r,
                              dbg_total_chunks = total_chunks r, dbg_method = ''rag''\<rparr>,
               resp_error = None, status = 200\<rparr>"
    using assms(4,5) by (simp add: handleRagPipeline_def)
  then show ?thesis
    using assms(1,2,3) by (auto simp: POST_def)
qed

theorem low_confidence_response_witness:
  "validateRequest demo_body = None \<and> ENABLE_RAG demo_route
   \<and> (\<exists>r. retrieve (retrieval demo_route) ''trees?'' (RAG_TOP_K (retrieval demo_route)) = Inr r
          \<and> \<not> confidence r)
   \<and> answer (POST demo_route demo_body) = ''Not found in VTU context.''
   \<and> citations (POST demo_route demo_body) = [] \<and> resp_sources (POST demo_route demo_body) = []"
proof -
  have env: "retrieval demo_route = strict_env" "RAG_TOP_K strict_env = 5" "ENABLE_RAG demo_route"
    by (simp_all add: demo_route_def strict_env_def demo_env_def)
  obtain r where r: "retrieve strict_env ''trees?'' 5 = Inr r" "\<not> confidence r"
    using strict_retrieve by blast
  have "answer (POST demo_route demo_body) = ''Not found in VTU context.''
         \<and> citations (POST demo_route demo_body) = [] \<and> resp_sources (POST demo_route demo_body) = []"
    using low_confidence_response [of demo_body demo_route "''trees?''" r] r demo_body_valid
    by (simp add: env) (simp add: demo_body_def)
  then show ?thesis using r demo_body_valid by (auto simp: env)
qed

text \<open>
  Claim C1 as stated fails on the literal: the answer on the low-confidence path is
  "Not found in VTU context.", not "Not found in context.".
\<close>

theorem low_confidence_sentinel_counterexample:
  "(\<exists>r. retrieve (retrieval demo_route) ''trees?'' (RAG_TOP_K (retrieval demo_route)) = Inr r
          \<and> \<not> confidence r)
   \<and> answer (POST demo_route demo_body) \<noteq> ''Not found in context.''"
proof -
  have env: "retrieval demo_route = strict_env" "RAG_TOP_K strict_env = 5" "ENABLE_RAG demo_route"
    by (simp_all add: demo_route_def strict_env_def demo_env_def)
  obtain r where r: "retrieve strict_env ''trees?'' 5 = Inr r" "\<not> confidence r"
    using strict_retrieve by blast
  have "handleRagPipeline demo_route ''trees?'' =
          Inr \<lparr>answer = ''Not found in VTU context.'', citations = [], resp_sources = [],
               debug = Some \<lparr>scores = map score (results r), retrieval_confidence = False,
                              dbg_search_time_ms = search_time_ms r,
                              dbg_total_chunks = total_chunks r, dbg_method = ''rag''\<rparr>,
               resp_error = None, status = 200\<rparr>"
    using r by (simp add: handleRagPipeline_def env)
  then have "answer (POST demo_route demo_body) = ''Not found in VTU context.''"
    using demo_body_valid by (simp add: POST_def env) (simp add: demo_body_def)
  then show ?thesis using r by (auto simp: env)
qed

section \<open>Properties of the prompt builder\<close>

lemma context_loop_prefix:
  "\<exists>j\<le>length cs.
      context_loop tf M incl i cs acc =
        \<lparr>contextText = contextText acc @ concat (map (context_block tf incl) (take j cs)),
         sources = sources acc @ map sourceId (take j cs),
         estimatedTokens = estimatedTokens acc + sum_list (map (block_tokens tf incl) (take j cs))\<rparr>"
proof (induction cs arbitrary: i acc)
  case Nil
  show ?case by simp
next
  case (Cons c cs)
  show ?case
  proof (cases "estimatedTokens acc + block_tokens tf incl c > M \<and> i > 0")
    case True
    then have "context_loop tf M incl i (c # cs) acc = acc" by simp
    then show ?thesis by (intro exI [of _ 0]) simp
  next
    case False
    let ?acc = "\<lparr>contextText = contextText acc @ context_block tf incl c,
                  sources = sources acc @ [sourceId c],
                  estimatedTokens = estimatedTokens acc + block_tokens tf incl c\<rparr>"
    from Cons.IH [of "Suc i" ?acc] obtain j where j: "j \<le> length cs"
      and run: "context_loop tf M incl (Suc i) cs ?acc =
        \<lparr>contextText = contextText ?acc @ concat (map (context_block tf incl) (take j cs)),
         sources = sources ?acc @ map sourceId (take j cs),
         estimatedTokens = estimatedTokens ?acc + sum_list (map (block_tokens tf incl) (take j cs))\<rparr>"
      by blast
    have "context_loop tf M incl i (c # cs) acc = context_loop tf M incl (Suc i) cs ?acc"
      unfolding context_loop.simps Let_def using False by (rule if_not_P)
    then show ?thesis
      using j run by (intro exI [of _ "Suc j"]) simp
  qed
qed

lemma context_loop_budget:
  "0 < i \<Longrightarrow> estimatedTokens acc \<le> B \<Longrightarrow> M \<le> B
     \<Longrightarrow> estimatedTokens (context_loop tf M incl i cs acc) \<le> B"
proof (induction cs arbitrary: i acc)
  case Nil
  then show ?case by simp
next
  case (Cons c cs)
  show ?case
  proof (cases "estimatedTokens acc + block_tokens tf incl c > M")
    case True
    then show ?thesis using Cons.prems by simp
  next
    case False
    then have "estimatedTokens acc + block_tokens tf incl c \<le> B" using Cons.prems(3) by simp
    then show ?thesis using False Cons.prems(3) by (simp add: Let_def Cons.IH)
  qed
qed

lemma context_loop_first:
  "context_loop tf M incl 0 (c # cs) acc =
     context_loop tf M incl (Suc 0) cs
       \<lparr>contextText = contextText acc @ context_block tf incl c,
        sources = sources acc @ [sourceId c],
        estimatedTokens = estimatedTokens acc + block_tokens tf incl c\<rparr>"
  by (simp add: Let_def)

lemma block_tokens_nonneg: "0 \<le> block_tokens tf incl c"
  by (simp add: block_tokens_def)

lemma block_tokens_text: "real (length (rr_text c)) / 4 \<le> real_of_int (block_tokens tf incl c)"
proof -
  have "length (rr_text c) \<le> length (context_block tf incl c)"
    by (simp add: context_block_def Let_def)
  then have "real (length (rr_text c)) / 4 \<le> real (length (context_block tf incl c)) / 4"
    by simp
  also have "\<dots> \<le> real_of_int (block_tokens tf incl c)"
    unfolding block_tokens_def by (rule le_of_int_ceiling)
  finally show ?thesis .
qed

lemma big_result_tokens: "int n \<le> block_tokens tf incl (big_result n)"
proof -
  have "real (length (rr_text (big_result n))) / 4 = real n"
    by (simp add: big_result_def demo_result_def)
  then have "real n \<le> real_of_int (block_tokens tf incl (big_result n))"
    using block_tokens_text [of "big_result n" tf incl] by simp
  then show ?thesis by linarith
qed

text \<open>\<open>buildPrompt\<close> hands the sources and the estimate of the context section on
  unchanged, with \<open>maxContextTokens\<close> defaulting to 4000.\<close>

lemma buildPrompt_section:
  "contextSources (buildPrompt tpl retrieved q opts) =
     sources (buildContextSection (toFixed3 tpl) retrieved
        (case maxContextTokens opts of None \<Rightarrow> 4000 | Some m \<Rightarrow> m)
        (case includeMetadata opts of None \<Rightarrow> True | Some b \<Rightarrow> b)
        (case citationStyle opts of None \<Rightarrow> ''vtu'' | Some c \<Rightarrow> c))"
  "tokenEstimate (buildPrompt tpl retrieved q opts) =
     estimatedTokens (buildContextSection (toFixed3 tpl) retrieved
        (case maxContextTokens opts of None \<Rightarrow> 4000 | Some m \<Rightarrow> m)
        (case includeMetadata opts of None \<Rightarrow> True | Some b \<Rightarrow> b)
        (case citationStyle opts of None \<Rightarrow> ''vtu'' | Some c \<Rightarrow> c))"
  by (simp_all add: buildPrompt_def Let_def)

text \<open>
  Claim C6, amended. The sources and blocks kept by \<open>buildContextSection\<close> are those of a
  prefix of the ranked input, in the input's order, and the estimate is 50 plus their
  costs. The estimate is at most the larger of \<open>maxTokens\<close> and 50 plus the cost of the
  first block: it can pass \<open>maxTokens\<close> only through the base overhead and the first
  block, which is never dropped.
\<close>

theorem context_prefix_and_budget:
  "(\<exists>j\<le>length retrieved.
       sources (buildContextSection tf retrieved M incl style) = map sourceId (take j retrieved)
     \<and> contextText (buildContextSection tf retrieved M incl style) =
         context_header
           @ concat (map (context_block tf incl) (take j retrieved))
     \<and> estimatedTokens (buildContextSection tf retrieved M incl style) =
         50 + sum_list (map (block_tokens tf incl) (take j retrieved)))
   \<and> estimatedTokens (buildContextSection tf retrieved M incl style)
       \<le> max M (50 + (case retrieved of [] \<Rightarrow> 0 | c # cs \<Rightarrow> block_tokens tf incl c))"
proof -
  let ?init = "\<lparr>contextText = context_header,
                 sources = [], estimatedTokens = 50\<rparr>"
  obtain j where j: "j \<le> length retrieved"
    and run: "context_loop tf M incl 0 retrieved ?init =
        \<lparr>contextText = contextText ?init @ concat (map (context_block tf incl) (take j retrieved)),
         sources = sources ?init @ map sourceId (take j retrieved),
         estimatedTokens = estimatedTokens ?init
            + sum_list (map (block_tokens tf incl) (take j retrieved))\<rparr>"
    using context_loop_prefix [of retrieved tf M incl 0 ?init] by blast
  have first: "\<exists>j\<le>length retrieved.
       sources (buildContextSection tf retrieved M incl style) = map sourceId (take j retrieved)
     \<and> contextText (buildContextSection tf retrieved M incl style) =
         context_header
           @ concat (map (context_block tf incl) (take j retrieved))
     \<and> estimatedTokens (buildContextSection tf retrieved M incl style) =
         50 + sum_list (map (block_tokens tf incl) (take j retrieved))"
    using j by (intro exI [of _ j]) (simp add: buildContextSection_def run)
  have second: "estimatedTokens (buildContextSection tf retrieved M incl style)
       \<le> max M (50 + (case retrieved of [] \<Rightarrow> 0 | c # cs \<Rightarrow> block_tokens tf incl c))"
  proof (cases retrieved)
    case Nil
    then show ?thesis by (simp add: buildContextSection_def)
  next
    case (Cons c cs)
    have "estimatedTokens (context_loop tf M incl (Suc 0) cs
             \<lparr>contextText = contextText ?init @ context_block tf incl c,
              sources = sources ?init @ [sourceId c],
              estimatedTokens = estimatedTokens ?init + block_tokens tf incl c\<rparr>)
          \<le> max M (50 + block_tokens tf incl c)"
      by (rule context_loop_budget) simp_all
    then show ?thesis
      unfolding buildContextSection_def Cons context_loop_first by simp
  qed
  from first second show ?thesis by (rule conjI)
qed

lemma demo_blocks:
  "context_block demo_toFixed False (demo_result ''a'' ''12345678'' 1) = ''[a]'' @ newline @ ''12345678'' @ newline @ newline"
  "context_block demo_toFixed False (demo_result ''b'' ''abcdefgh'' 0) = ''[b]'' @ newline @ ''abcdefgh'' @ newline @ newline"
  by (simp_all add: context_block_def sourceId_def demo_result_def)

lemma demo_block_tokens:
  "block_tokens demo_toFixed False (demo_result ''a'' ''12345678'' 1) = 4"
  "block_tokens demo_toFixed False (demo_result ''b'' ''abcdefgh'' 0) = 4"
  by (simp_all add: block_tokens_def demo_blocks newline_def)

lemma demo_section:
  "buildContextSection demo_toFixed [demo_result ''a'' ''12345678'' 1, demo_result ''b'' ''abcdefgh'' 0] 56 False ''vtu''
     = \<lparr>contextText = context_header @ ''[a]'' @ newline @ ''12345678'' @ newline @ newline,
        sources = [''a''], estimatedTokens = 54\<rparr>"
  by (simp add: buildContextSection_def demo_block_tokens demo_blocks)
     (simp add: sourceId_def demo_result_def)

theorem context_prefix_and_budget_witness:
  "sources (buildContextSection demo_toFixed
       [demo_result ''a'' ''12345678'' 1, demo_result ''b'' ''abcdefgh'' 0] 56 False ''vtu'') = [''a'']
   \<and> estimatedTokens (buildContextSection demo_toFixed
       [demo_result ''a'' ''12345678'' 1, demo_result ''b'' ''abcdefgh'' 0] 56 False ''vtu'') = 54
   \<and> (54::int) \<le> max 56 (50 + 4)"
  using context_prefix_and_budget [of "[demo_result ''a'' ''12345678'' 1, demo_result ''b'' ''abcdefgh'' 0]"
          demo_toFixed 56 False "''vtu''"]
  by (simp add: demo_section)

text \<open>
  Claim C6 as stated fails: no fixed margin bounds the estimate by \<open>maxTokens\<close> plus the
  margin, because a single block of any size is kept.
\<close>

theorem token_budget_counterexample:
  "\<not> (\<exists>margin. \<forall>retrieved maxTokens.
         estimatedTokens (buildContextSection demo_toFixed retrieved maxTokens True ''vtu'')
           \<le> maxTokens + margin)"
proof
  assume "\<exists>margin. \<forall>retrieved maxTokens.
         estimatedTokens (buildContextSection demo_toFixed retrieved maxTokens True ''vtu'')
           \<le> maxTokens + margin"
  then obtain margin where m: "\<And>retrieved maxTokens.
         estimatedTokens (buildContextSection demo_toFixed retrieved maxTokens True ''vtu'')
           \<le> maxTokens + margin"
    by blast
  have "estimatedTokens (buildContextSection demo_toFixed [big_result (nat margin)] 0 True ''vtu'')
          = 50 + block_tokens demo_toFixed True (big_result (nat margin))"
    by (simp add: buildContextSection_def Let_def)
  moreover have "int (nat margin) \<le> block_tokens demo_toFixed True (big_result (nat margin))"
    by (rule big_result_tokens)
  ultimately have "margin < estimatedTokens
      (buildContextSection demo_toFixed [big_result (nat margin)] 0 True ''vtu'')"
    by linarith
  with m [of "[big_result (nat margin)]" 0] show False by simp
qed

text \<open>
  Claim C10. For a non-empty ranked list the context section always holds the first
  block, whatever its size: its source id is the first source, its text follows the
  header and its cost is part of the estimate. Hence when the cost of the first block
  alone is above \<open>maxTokens\<close> so is the estimate, and such inputs exist for every budget.
\<close>

theorem first_chunk_always_kept:
  "sources (buildContextSection tf (c # cs) M incl style) \<noteq> []
   \<and> hd (sources (buildContextSection tf (c # cs) M incl style)) = sourceId c
   \<and> prefix (context_header @ context_block tf incl c)
        (contextText (buildContextSection tf (c # cs) M incl style))
   \<and> 50 + block_tokens tf incl c \<le> estimatedTokens (buildContextSection tf (c # cs) M incl style)
   \<and> (M < block_tokens tf incl c
        \<longrightarrow> M < estimatedTokens (buildContextSection tf (c # cs) M incl style))
   \<and> (\<exists>big. M < block_tokens tf incl big
        \<and> M < estimatedTokens (buildContextSection tf (big # cs) M incl style))"
proof -
  have kept: "sources (buildContextSection tf (x # cs) M incl style) \<noteq> []
      \<and> hd (sources (buildContextSection tf (x # cs) M incl style)) = sourceId x
      \<and> prefix (context_header @ context_block tf incl x)
           (contextText (buildContextSection tf (x # cs) M incl style))
      \<and> 50 + block_tokens tf incl x \<le> estimatedTokens (buildContextSection tf (x # cs) M incl style)"
    for x
  proof -
    let ?acc = "\<lparr>contextText = context_header @ context_block tf incl x,
                  sources = [sourceId x],
                  estimatedTokens = 50 + block_tokens tf incl x\<rparr>"
    obtain j where
      run: "context_loop tf M incl (Suc 0) cs ?acc =
        \<lparr>contextText = contextText ?acc @ concat (map (context_block tf incl) (take j cs)),
         sources = sources ?acc @ map sourceId (take j cs),
         estimatedTokens = estimatedTokens ?acc + sum_list (map (block_tokens tf incl) (take j cs))\<rparr>"
      using context_loop_prefix [of cs tf M incl "Suc 0" ?acc] by blast
    have eq: "buildContextSection tf (x # cs) M incl style = context_loop tf M incl (Suc 0) cs ?acc"
      by (simp add: buildContextSection_def Let_def)
    have "0 \<le> sum_list (map (block_tokens tf incl) (take j cs))"
      by (rule sum_list_nonneg) (auto simp: block_tokens_nonneg)
    then show ?thesis
      unfolding eq run by simp
  qed
  have big: "\<exists>big. M < block_tokens tf incl big
        \<and> M < estimatedTokens (buildContextSection tf (big # cs) M incl style)"
  proof -
    have "int (nat (M + 1)) \<le> block_tokens tf incl (big_result (nat (M + 1)))"
      by (rule big_result_tokens)
    then have "M < block_tokens tf incl (big_result (nat (M + 1)))" by linarith
    then show ?thesis using kept [of "big_result (nat (M + 1))"] by (intro exI [of _ "big_result (nat (M + 1))"]) linarith
  qed
  from kept [of c] big show ?thesis by auto
qed

theorem first_chunk_always_kept_witness:
  "sources (buildContextSection demo_toFixed
       [demo_result ''a'' ''12345678'' 1, demo_result ''b'' ''abcdefgh'' 0] 3 False ''vtu'') = [''a'']
   \<and> (3::int) < block_tokens demo_toFixed False (demo_result ''a'' ''12345678'' 1)
   \<and> (3::int) < estimatedTokens (buildContextSection demo_toFixed
       [demo_result ''a'' ''12345678'' 1, demo_result ''b'' ''abcdefgh'' 0] 3 False ''vtu'')"
proof -
  have run: "buildContextSection demo_toFixed
       [demo_result ''a'' ''12345678'' 1, demo_result ''b'' ''abcdefgh'' 0] 3 False ''vtu''
     = \<lparr>contextText = context_header @ ''[a]'' @ newline @ ''12345678'' @ newline @ newline,
        sources = [''a''], estimatedTokens = 54\<rparr>"
    by (simp add: buildContextSection_def demo_block_tokens demo_blocks)
       (simp add: sourceId_def demo_result_def)
  show ?thesis
    using first_chunk_always_kept [of demo_toFixed "demo_result ''a'' ''12345678'' 1"
            "[demo_result ''b'' ''abcdefgh'' 0]" 3 False "''vtu''"]
    by (simp add: run demo_block_tokens)
qed

section \<open>Properties of the generation client\<close>

lemma api_calls_append [simp]: "api_calls (xs @ ys) = api_calls xs + api_calls ys"
  by (simp add: api_calls_def)

lemma api_calls_simps [simp]:
  "api_calls [] = 0"
  "api_calls (ApiCall m p # xs) = Suc (api_calls xs)"
  "api_calls (Sleep d # xs) = api_calls xs"
  by (simp_all add: api_calls_def)

lemma retry_loop_done:
  "maxRetries < attempt \<Longrightarrow>
     retry_loop api m p maxRetries attempt lastError tr =
       (Inl (case lastError of Some e \<Rightarrow> e | None \<Rightarrow> Error ''Maximum retry attempts exceeded''), tr)"
  by (subst retry_loop.simps) simp

lemma retry_loop_success:
  "attempt \<le> maxRetries \<Longrightarrow> callGeminiAPI (api m p (api_calls tr)) = Inr t \<Longrightarrow>
     retry_loop api m p maxRetries attempt lastError tr = (Inr t, tr @ [ApiCall m p])"
  by (subst retry_loop.simps) simp

lemma retry_loop_failure:
  "attempt \<le> maxRetries \<Longrightarrow> callGeminiAPI (api m p (api_calls tr)) = Inl e \<Longrightarrow>
     retry_loop api m p maxRetries attempt lastError tr =
       retry_loop api m p maxRetries (Suc attempt) (Some e)
         (tr @ [ApiCall m p] @ (if attempt < maxRetries then [Sleep (2 ^ (attempt - 1) * 1000)] else []))"
  by (subst retry_loop.simps) simp

lemma attempt_fails_iff: "attempt_fails api m p n \<longleftrightarrow> (\<exists>e. callGeminiAPI (api m p n) = Inl e)"
  by (auto simp: attempt_fails_def split: sum.splits)

lemma not_attempt_fails_iff: "\<not> attempt_fails api m p n \<longleftrightarrow> (\<exists>t. callGeminiAPI (api m p n) = Inr t)"
  by (auto simp: attempt_fails_def split: sum.splits)

text \<open>The three attempts of \<open>generateWithModel\<close> with the default \<open>maxRetries = 3\<close>.\<close>

lemma generateWithModel_first:
  assumes "callGeminiAPI (api m p (api_calls tr)) = Inr t"
  shows "generateWithModel api m p 3 tr = (Inr t, tr @ backoff_attempts m p (Suc 0))"
  using assms by (simp add: generateWithModel_def retry_loop_success)

lemma generateWithModel_second:
  assumes "attempt_fails api m p (api_calls tr)"
    and "callGeminiAPI (api m p (api_calls tr + 1)) = Inr t"
  shows "generateWithModel api m p 3 tr = (Inr t, tr @ backoff_attempts m p (Suc (Suc 0)))"
proof -
  from assms(1) obtain e where e: "callGeminiAPI (api m p (api_calls tr)) = Inl e"
    by (auto simp: attempt_fails_iff)
  have "generateWithModel api m p 3 tr =
          retry_loop api m p 3 (Suc 1) (Some e) (tr @ [ApiCall m p, Sleep 1000])"
    using e by (simp add: generateWithModel_def retry_loop_failure)
  also have "\<dots> = (Inr t, (tr @ [ApiCall m p, Sleep 1000]) @ [ApiCall m p])"
    using assms(2) by (intro retry_loop_success) simp_all
  finally show ?thesis by simp
qed

lemma generateWithModel_third:
  assumes "attempt_fails api m p (api_calls tr)"
    and "attempt_fails api m p (api_calls tr + 1)"
    and "callGeminiAPI (api m p (api_calls tr + 2)) = r"
  shows "generateWithModel api m p 3 tr =
           (case r of Inr t \<Rightarrow> Inr t | Inl e \<Rightarrow> Inl e, tr @ backoff_attempts m p (Suc (Suc (Suc 0))))"
proof -
  from assms(1) obtain e1 where e1: "callGeminiAPI (api m p (api_calls tr)) = Inl e1"
    by (auto simp: attempt_fails_iff)
  from assms(2) obtain e2 where e2: "callGeminiAPI (api m p (api_calls tr + 1)) = Inl e2"
    by (auto simp: attempt_fails_iff)
  let ?tr1 = "tr @ [ApiCall m p, Sleep 1000]"
  let ?tr2 = "?tr1 @ [ApiCall m p, Sleep 2000]"
  have "generateWithModel api m p 3 tr = retry_loop api m p 3 (Suc 1) (Some e1) ?tr1"
    using e1 by (simp add: generateWithModel_def retry_loop_failure)
  also have "\<dots> = retry_loop api m p 3 (Suc (Suc 1)) (Some e2) ?tr2"
    using e2 by (subst retry_loop_failure [where e = e2]) simp_all
  finally have step: "generateWithModel api m p 3 tr = retry_loop api m p 3 (Suc (Suc 1)) (Some e2) ?tr2" .
  have tr3: "tr @ backoff_attempts m p (Suc (Suc (Suc 0))) = ?tr2 @ [ApiCall m p]"
    by simp
  show ?thesis
  proof (cases r)
    case (Inr t)
    then have "retry_loop api m p 3 (Suc (Suc 1)) (Some e2) ?tr2 = (Inr t, ?tr2 @ [ApiCall m p])"
      using assms(3) by (intro retry_loop_success) simp_all
    then show ?thesis unfolding step tr3 using Inr by simp
  next
    case (Inl e3)
    then have "retry_loop api m p 3 (Suc (Suc 1)) (Some e2) ?tr2
                 = retry_loop api m p 3 (Suc (Suc (Suc 1))) (Some e3) (?tr2 @ [ApiCall m p])"
      using assms(3) by (subst retry_loop_failure [where e = e3]) simp_all
    also have "\<dots> = (Inl e3, ?tr2 @ [ApiCall m p])"
      by (subst retry_loop_done) simp_all
    finally show ?thesis unfolding step tr3 using Inl by simp
  qed
qed

lemma api_calls_backoff [simp]: "api_calls (backoff_attempts m p n) = n"
  by (induction n) simp_all

lemma backoff_numerals:
  "backoff_attempts m p 1 = [ApiCall m p]"
  "backoff_attempts m p 2 = [ApiCall m p, Sleep 1000, ApiCall m p]"
  "backoff_attempts m p 3 = [ApiCall m p, Sleep 1000, ApiCall m p, Sleep 2000, ApiCall m p]"
  by (simp_all add: numeral_2_eq_2 numeral_3_eq_3)

text \<open>
  Claim C7, amended. With the API key set and starting from an empty trace,
  \<open>generateFromPrompt\<close> calls the primary model up to three times, pausing 1000 ms and
  2000 ms between attempts, and returns the first text it gets. If all three attempts
  fail it runs the fallback model under the same policy (up to three attempts with the
  same pauses, not a single call): the first fallback text is returned and no error
  escapes; if the fallback fails three times too, "Generation failed: ..." with the last
  fallback error is raised.
\<close>

theorem generateFromPrompt_retry_then_fallback:
  assumes key: "GEMINI_API_KEY genv = Some k" "k \<noteq> []"
  defines "api \<equiv> endpoint genv" and "P \<equiv> GEN_MODEL genv" and "F \<equiv> GEN_MODEL_FALLBACK genv"
  shows "(\<forall>j<3. \<forall>t. (\<forall>n<j. attempt_fails api P prompt n) \<and> callGeminiAPI (api P prompt j) = Inr t
            \<longrightarrow> generateFromPrompt genv prompt [] = (Inr t, backoff_attempts P prompt (j + 1)))
       \<and> (\<forall>j<3. \<forall>t. (\<forall>n<3. attempt_fails api P prompt n)
                   \<and> (\<forall>n<j. attempt_fails api F prompt (3 + n))
                   \<and> callGeminiAPI (api F prompt (3 + j)) = Inr t
            \<longrightarrow> generateFromPrompt genv prompt []
                  = (Inr t, backoff_attempts P prompt 3 @ backoff_attempts F prompt (j + 1)))
       \<and> (\<forall>e. (\<forall>n<3. attempt_fails api P prompt n) \<and> (\<forall>n<2. attempt_fails api F prompt (3 + n))
                \<and> callGeminiAPI (api F prompt 5) = Inl e
            \<longrightarrow> generateFromPrompt genv prompt []
                  = (Inl (Error (''Generation failed: '' @ error_to_string e)),
                     backoff_attempts P prompt 3 @ backoff_attempts F prompt 3))"
proof -
  have unfold: "generateFromPrompt genv prompt [] =
        (case generateWithModel api P prompt 3 [] of
           (Inr response, trace1) \<Rightarrow> (Inr response, trace1)
         | (Inl primaryError, trace1) \<Rightarrow>
             (case generateWithModel api F prompt 3 trace1 of
                (Inr response, trace2) \<Rightarrow> (Inr response, trace2)
              | (Inl fallbackError, trace2) \<Rightarrow>
                  (Inl (Error (''Generation failed: '' @ error_to_string fallbackError)), trace2)))"
    unfolding generateFromPrompt_def api_def P_def F_def using key by simp
  have lt3: "(\<forall>n<3. Q n) \<longleftrightarrow> Q 0 \<and> Q 1 \<and> Q 2" for Q :: "nat \<Rightarrow> bool"
    by (auto simp: numeral_3_eq_3 numeral_2_eq_2 less_Suc_eq)
  have lt2: "(\<forall>n<2. Q n) \<longleftrightarrow> Q 0 \<and> Q 1" for Q :: "nat \<Rightarrow> bool"
    by (auto simp: numeral_2_eq_2 less_Suc_eq)
  have lt1: "(\<forall>n<1. Q n) \<longleftrightarrow> Q 0" for Q :: "nat \<Rightarrow> bool"
    by auto
  have primary_ok: "generateFromPrompt genv prompt [] = (Inr t, backoff_attempts P prompt (j + 1))"
    if "j < 3" "\<forall>n<j. attempt_fails api P prompt n" "callGeminiAPI (api P prompt j) = Inr t" for j t
  proof -
    from that(1) consider "j = 0" | "j = 1" | "j = 2" by linarith
    then have "generateWithModel api P prompt 3 [] = (Inr t, [] @ backoff_attempts P prompt (j + 1))"
    proof cases
      case 1
      have "callGeminiAPI (api P prompt (api_calls [])) = Inr t" using that(3) 1 by simp
      from generateWithModel_first [of api P prompt "[]", OF this] show ?thesis using 1 by (simp add: backoff_numerals)
    next
      case 2
      have f: "attempt_fails api P prompt (api_calls [])" using that(2) 2 by simp
      have c: "callGeminiAPI (api P prompt (api_calls [] + 1)) = Inr t" using that(3) 2 by simp
      from generateWithModel_second [of api P prompt "[]", OF f c] show ?thesis using 2 by (simp add: backoff_numerals)
    next
      case 3
      have f: "attempt_fails api P prompt (api_calls [])" "attempt_fails api P prompt (api_calls [] + 1)"
        using that(2) 3 by (simp_all add: lt2)
      have c: "callGeminiAPI (api P prompt (api_calls [] + 2)) = Inr t"
        using that(3) 3 by (simp add: numeral_2_eq_2)
      from generateWithModel_third [of api P prompt "[]", OF f c] show ?thesis using 3 by (simp add: backoff_numerals)
    qed
    then show ?thesis by (simp add: unfold)
  qed
  have primary_fail: "\<exists>e. generateWithModel api P prompt 3 [] = (Inl e, backoff_attempts P prompt 3)"
    if "\<forall>n<3. attempt_fails api P prompt n"
  proof -
    have f: "attempt_fails api P prompt (api_calls [])" "attempt_fails api P prompt (api_calls [] + 1)"
      using that by (simp_all add: lt3)
    from that obtain e where "callGeminiAPI (api P prompt (api_calls [] + 2)) = Inl e"
      by (auto simp: lt3 attempt_fails_iff numeral_2_eq_2)
    from generateWithModel_third [of api P prompt "[]", OF f this] show ?thesis by (simp add: backoff_numerals)
  qed
  have fallback_ok: "generateFromPrompt genv prompt []
                  = (Inr t, backoff_attempts P prompt 3 @ backoff_attempts F prompt (j + 1))"
    if "j < 3" "\<forall>n<3. attempt_fails api P prompt n" "\<forall>n<j. attempt_fails api F prompt (3 + n)"
       "callGeminiAPI (api F prompt (3 + j)) = Inr t" for j t
  proof -
    from primary_fail [OF that(2)] obtain pe where
      pe: "generateWithModel api P prompt 3 [] = (Inl pe, backoff_attempts P prompt 3)" by blast
    let ?tr = "backoff_attempts P prompt 3"
    from that(1) consider "j = 0" | "j = 1" | "j = 2" by linarith
    then have "generateWithModel api F prompt 3 ?tr = (Inr t, ?tr @ backoff_attempts F prompt (j + 1))"
    proof cases
      case 1
      have "callGeminiAPI (api F prompt (api_calls ?tr)) = Inr t" using that(4) 1 by simp
      from generateWithModel_first [of api F prompt "backoff_attempts P prompt 3", OF this] show ?thesis using 1 by (simp add: backoff_numerals)
    next
      case 2
      have f: "attempt_fails api F prompt (api_calls ?tr)" using that(3) 2 by simp
      have c: "callGeminiAPI (api F prompt (api_calls ?tr + 1)) = Inr t" using that(4) 2 by simp
      from generateWithModel_second [of api F prompt "backoff_attempts P prompt 3", OF f c] show ?thesis using 2 by (simp add: backoff_numerals)
    next
      case 3
      have f: "attempt_fails api F prompt (api_calls ?tr)" "attempt_fails api F prompt (api_calls ?tr + 1)"
        using that(3) 3 by (simp_all add: lt2)
      have c: "callGeminiAPI (api F prompt (api_calls ?tr + 2)) = Inr t" using that(4) 3 by simp
      from generateWithModel_third [of api F prompt "backoff_attempts P prompt 3", OF f c] show ?thesis using 3 by (simp add: backoff_numerals)
    qed
    then show ?thesis by (simp add: unfold pe)
  qed
  have both_fail: "generateFromPrompt genv prompt []
                  = (Inl (Error (''Generation failed: '' @ error_to_string e)),
                     backoff_attempts P prompt 3 @ backoff_attempts F prompt 3)"
    if "\<forall>n<3. attempt_fails api P prompt n" "\<forall>n<2. attempt_fails api F prompt (3 + n)"
       "callGeminiAPI (api F prompt 5) = Inl e" for e
  proof -
    from primary_fail [OF that(1)] obtain pe where
      pe: "generateWithModel api P prompt 3 [] = (Inl pe, backoff_attempts P prompt 3)" by blast
    let ?tr = "backoff_attempts P prompt 3"
    have f: "attempt_fails api F prompt (api_calls ?tr)" "attempt_fails api F prompt (api_calls ?tr + 1)"
      using that(2) by (simp_all add: lt2)
    have c: "callGeminiAPI (api F prompt (api_calls ?tr + 2)) = Inl e" using that(3) by simp
    from generateWithModel_third [of api F prompt "backoff_attempts P prompt 3", OF f c]
    have "generateWithModel api F prompt 3 ?tr = (Inl e, ?tr @ backoff_attempts F prompt 3)"
      by (simp add: backoff_numerals)
    then show ?thesis by (simp add: unfold pe)
  qed
  show ?thesis using primary_ok fallback_ok both_fail by blast
qed

lemma call_unavailable:
  "callGeminiAPI (HttpError 503 ''unavailable'') = Inl (Error ''Gemini API error (503): unavailable'')"
  by (simp add: callGeminiAPI_def show_nat.simps)

lemma call_text: "callGeminiAPI (text_reply ''fallback text'') = Inr ''fallback text''"
  by (simp add: callGeminiAPI_def text_reply_def trim_def is_space_def)

lemma call_blocked: "callGeminiAPI blocked_reply = Inl (Error ''Response blocked by safety filters'')"
  by (simp add: callGeminiAPI_def blocked_reply_def)

theorem generateFromPrompt_retry_then_fallback_witness:
  "attempt_fails primary_down ''primary'' ''prompt'' 0
   \<and> attempt_fails primary_down ''primary'' ''prompt'' 1
   \<and> attempt_fails primary_down ''primary'' ''prompt'' 2
   \<and> generateFromPrompt (demo_genv primary_down) ''prompt'' [] =
       (Inr ''fallback text'',
        [ApiCall ''primary'' ''prompt'', Sleep 1000, ApiCall ''primary'' ''prompt'', Sleep 2000,
         ApiCall ''primary'' ''prompt'', ApiCall ''fallback'' ''prompt''])"
proof -
  have fails: "\<forall>n<3. attempt_fails primary_down ''primary'' ''prompt'' n"
    by (simp add: attempt_fails_def primary_down_def call_unavailable)
  have ok: "callGeminiAPI (primary_down ''fallback'' ''prompt'' (3 + 0)) = Inr ''fallback text''"
    by (simp add: primary_down_def call_text)
  have key: "GEMINI_API_KEY (demo_genv primary_down) = Some ''key''" "''key'' \<noteq> []"
    by (simp_all add: demo_genv_def)
  have env: "endpoint (demo_genv primary_down) = primary_down"
    "GEN_MODEL (demo_genv primary_down) = ''primary''"
    "GEN_MODEL_FALLBACK (demo_genv primary_down) = ''fallback''"
    by (simp_all add: demo_genv_def)
  have "generateFromPrompt (demo_genv primary_down) ''prompt'' [] =
          (Inr ''fallback text'',
           backoff_attempts ''primary'' ''prompt'' 3 @ backoff_attempts ''fallback'' ''prompt'' (0 + 1))"
    using generateFromPrompt_retry_then_fallback
            [OF key, of "''prompt''", THEN conjunct2, THEN conjunct1, rule_format, of 0 "''fallback text''"]
          fails ok
    by (simp add: env)
  then show ?thesis using fails by (simp add: backoff_numerals numeral_3_eq_3 less_Suc_eq numeral_2_eq_2)
qed

text \<open>
  Claim C7 as stated fails on "one call to the fallback model before raising": when every
  call fails, the fallback model is called three times before the error is raised.
\<close>

theorem fallback_single_call_counterexample:
  "generateFromPrompt (demo_genv all_down) ''prompt'' [] =
     (Inl (Error ''Generation failed: Error: Gemini API error (503): unavailable''),
      [ApiCall ''primary'' ''prompt'', Sleep 1000, ApiCall ''primary'' ''prompt'', Sleep 2000,
       ApiCall ''primary'' ''prompt'',
       ApiCall ''fallback'' ''prompt'', Sleep 1000, ApiCall ''fallback'' ''prompt'', Sleep 2000,
       ApiCall ''fallback'' ''prompt''])
   \<and> length (filter (\<lambda>ev. ev = ApiCall ''fallback'' ''prompt'')
        (snd (generateFromPrompt (demo_genv all_down) ''prompt'' []))) \<noteq> 1"
proof -
  have f: "attempt_fails all_down m p n" for m p n
    by (simp add: attempt_fails_def all_down_def call_unavailable)
  have c: "callGeminiAPI (all_down m p n) = Inl (Error ''Gemini API error (503): unavailable'')" for m p n
    by (simp add: all_down_def call_unavailable)
  have p: "generateWithModel all_down ''primary'' ''prompt'' 3 [] =
             (Inl (Error ''Gemini API error (503): unavailable''), backoff_attempts ''primary'' ''prompt'' 3)"
    using generateWithModel_third [of all_down "''primary''" "''prompt''" "[]", OF f f c]
    by (simp add: backoff_numerals)
  have q: "generateWithModel all_down ''fallback'' ''prompt'' 3 (backoff_attempts ''primary'' ''prompt'' 3) =
             (Inl (Error ''Gemini API error (503): unavailable''),
              backoff_attempts ''primary'' ''prompt'' 3 @ backoff_attempts ''fallback'' ''prompt'' 3)"
    using generateWithModel_third [of all_down "''fallback''" "''prompt''" "backoff_attempts ''primary'' ''prompt'' 3", OF f f c]
    by (simp add: backoff_numerals)
  have "generateFromPrompt (demo_genv all_down) ''prompt'' [] =
     (Inl (Error ''Generation failed: Error: Gemini API error (503): unavailable''),
      backoff_attempts ''primary'' ''prompt'' 3 @ backoff_attempts ''fallback'' ''prompt'' 3)"
    by (simp add: generateFromPrompt_def demo_genv_def p q)
  then show ?thesis by (simp add: backoff_numerals)
qed

lemma retry_loop_extends:
  "\<exists>rest. snd (retry_loop api m p maxRetries attempt lastError tr) = tr @ rest"
proof (induction api m p maxRetries attempt lastError tr rule: retry_loop.induct)
  case (1 api m p maxRetries attempt lastError tr)
  show ?case
  proof (cases "attempt \<le> maxRetries")
    case False
    then show ?thesis by (simp add: retry_loop_done)
  next
    case True
    show ?thesis
    proof (cases "callGeminiAPI (api m p (api_calls tr))")
      case (Inr t)
      with True show ?thesis by (simp add: retry_loop_success)
    next
      case (Inl e)
      from "1.IH" [OF True Inl] obtain rest where
        "snd (retry_loop api m p maxRetries (Suc attempt) (Some e)
           (tr @ [ApiCall m p] @ (if attempt < maxRetries then [Sleep (2 ^ (attempt - 1) * 1000)] else [])))
         = (tr @ [ApiCall m p] @ (if attempt < maxRetries then [Sleep (2 ^ (attempt - 1) * 1000)] else [])) @ rest"
        by blast
      then show ?thesis
        using True Inl by (simp add: retry_loop_failure)
    qed
  qed
qed

text \<open>
  Claim C8, amended. A reply whose first candidate has the finish reason \<open>SAFETY\<close> makes
  \<open>callGeminiAPI\<close> throw (with the message "Response blocked by safety filters" when the
  candidate has content), and \<open>generateWithModel\<close> handles it like every other failure:
  while attempts are left it pauses and calls the same model with the same prompt again.
\<close>

theorem safety_rejection_is_retried:
  assumes "safety_reply (api m p (api_calls tr))"
    and "attempt < maxRetries"
  shows "(\<exists>e. callGeminiAPI (api m p (api_calls tr)) = Inl e
            \<and> ((\<exists>cand rest t ts. api m p (api_calls tr) = HttpOk (Some (cand # rest))
                    \<and> cand_parts cand = Some (t # ts))
                 \<longrightarrow> e = Error ''Response blocked by safety filters''))
       \<and> (\<exists>rest. snd (retry_loop api m p maxRetries attempt lastError tr) =
             tr @ [ApiCall m p, Sleep (2 ^ (attempt - 1) * 1000), ApiCall m p] @ rest)"
proof -
  from assms(1) obtain cand cands where
    reply: "api m p (api_calls tr) = HttpOk (Some (cand # cands))"
    and fin: "finishReason cand = Some ''SAFETY''"
    by (auto simp: safety_reply_def split: api_reply.splits option.splits list.splits)
  define e where "e = (case cand_parts cand of
      None \<Rightarrow> Error ''Invalid candidate structure in Gemini response''
    | Some [] \<Rightarrow> Error ''Invalid candidate structure in Gemini response''
    | Some (t # ts) \<Rightarrow> Error ''Response blocked by safety filters'')"
  have e: "callGeminiAPI (api m p (api_calls tr)) = Inl e"
    by (simp add: callGeminiAPI_def reply fin e_def split: option.splits list.splits)
  have msg: "e = Error ''Response blocked by safety filters''"
    if "\<exists>c rest t ts. api m p (api_calls tr) = HttpOk (Some (c # rest)) \<and> cand_parts c = Some (t # ts)"
    using that reply by (auto simp: e_def)
  let ?tr1 = "tr @ [ApiCall m p, Sleep (2 ^ (attempt - 1) * 1000)]"
  have step: "retry_loop api m p maxRetries attempt lastError tr =
                retry_loop api m p maxRetries (Suc attempt) (Some e) ?tr1"
    using assms(2) e by (simp add: retry_loop_failure)
  have again: "\<exists>rest. snd (retry_loop api m p maxRetries (Suc attempt) (Some e) ?tr1)
                  = ?tr1 @ [ApiCall m p] @ rest"
  proof (cases "callGeminiAPI (api m p (api_calls ?tr1))")
    case (Inr t)
    then have "retry_loop api m p maxRetries (Suc attempt) (Some e) ?tr1 = (Inr t, ?tr1 @ [ApiCall m p])"
      using assms(2) by (intro retry_loop_success) simp_all
    then show ?thesis by simp
  next
    case (Inl e')
    let ?tr2 = "?tr1 @ [ApiCall m p] @ (if Suc attempt < maxRetries then [Sleep (2 ^ (Suc attempt - 1) * 1000)] else [])"
    have "retry_loop api m p maxRetries (Suc attempt) (Some e) ?tr1 =
            retry_loop api m p maxRetries (Suc (Suc attempt)) (Some e') ?tr2"
      using assms(2) Inl by (intro retry_loop_failure) simp_all
    moreover obtain rest where
      "snd (retry_loop api m p maxRetries (Suc (Suc attempt)) (Some e') ?tr2) = ?tr2 @ rest"
      using retry_loop_extends by blast
    ultimately show ?thesis by simp
  qed
  from e msg step again show ?thesis by auto
qed

theorem safety_rejection_is_retried_witness:
  "safety_reply (always_blocked ''m'' ''p'' (api_calls [])) \<and> (1::nat) < 3
   \<and> callGeminiAPI (always_blocked ''m'' ''p'' (api_calls [])) = Inl (Error ''Response blocked by safety filters'')
   \<and> (\<exists>rest. snd (generateWithModel always_blocked ''m'' ''p'' 3 []) =
         [ApiCall ''m'' ''p'', Sleep 1000, ApiCall ''m'' ''p''] @ rest)"
proof -
  have s: "safety_reply (always_blocked ''m'' ''p'' (api_calls []))"
    by (simp add: safety_reply_def always_blocked_def blocked_reply_def)
  have c: "callGeminiAPI (always_blocked ''m'' ''p'' (api_calls [])) = Inl (Error ''Response blocked by safety filters'')"
    by (simp add: always_blocked_def call_blocked)
  from safety_rejection_is_retried [of always_blocked "''m''" "''p''" "[]" 1 3 None, OF s]
  have "\<exists>rest. snd (generateWithModel always_blocked ''m'' ''p'' 3 []) =
         [ApiCall ''m'' ''p'', Sleep 1000, ApiCall ''m'' ''p''] @ rest"
    by (simp add: generateWithModel_def)
  with s c show ?thesis by simp
qed

text \<open>
  Claim C8 as stated fails: when every reply is blocked by the safety filters,
  \<open>generateWithModel\<close> calls the same model with the same prompt three times.
\<close>

theorem safety_not_retried_counterexample:
  "callGeminiAPI blocked_reply = Inl (Error ''Response blocked by safety filters'')
   \<and> generateWithModel always_blocked ''m'' ''p'' 3 [] =
       (Inl (Error ''Response blocked by safety filters''),
        [ApiCall ''m'' ''p'', Sleep 1000, ApiCall ''m'' ''p'', Sleep 2000, ApiCall ''m'' ''p''])"
proof -
  have f: "attempt_fails always_blocked m p n" for m p n
    by (simp add: attempt_fails_def always_blocked_def call_blocked)
  have c: "callGeminiAPI (always_blocked m p n) = Inl (Error ''Response blocked by safety filters'')" for m p n
    by (simp add: always_blocked_def call_blocked)
  show ?thesis
    using generateWithModel_third [of always_blocked "''m''" "''p''" "[]", OF f f c]
    by (simp add: call_blocked)
qed

section \<open>Properties of the chunker\<close>

subsection \<open>Splitting and joining\<close>

lemma split_runs_nonempty: "split_runs P s \<noteq> []"
  by (induction P s rule: split_runs.induct) (simp_all add: Let_def)

lemma split_runs_free: "w \<in> set (split_runs P s) \<Longrightarrow> c \<in> set w \<Longrightarrow> \<not> P c"
proof (induction P s arbitrary: w rule: split_runs.induct)
  case (1 P)
  then show ?case by simp
next
  case (2 P x xs)
  show ?case
  proof (cases "P x")
    case True
    with 2 show ?thesis by auto
  next
    case False
    let ?r = "split_runs P xs"
    from False "2.prems"(1) have "w = x # hd ?r \<or> w \<in> set (tl ?r)"
      by (simp add: Let_def)
    moreover have "hd ?r \<in> set ?r" by (simp add: split_runs_nonempty)
    moreover have "set (tl ?r) \<subseteq> set ?r" by (metis list.set_sel(2) subsetI tl_Nil)
    ultimately show ?thesis using False "2.IH"(2) "2.prems"(2) by auto
  qed
qed

lemma split_runs_word: "\<forall>c\<in>set w. \<not> P c \<Longrightarrow> split_runs P w = [w]"
  by (induction w) (simp_all add: Let_def)

lemma dropWhile_keeps_last:
  "xs \<noteq> [] \<Longrightarrow> \<not> P (last xs) \<Longrightarrow> dropWhile P xs \<noteq> [] \<and> last (dropWhile P xs) = last xs"
  by (induction xs) (auto split: if_splits)

lemma split_runs_append:
  assumes "s \<noteq> []" "\<not> P (last s)" "P c" "t \<noteq> []" "\<not> P (hd t)"
  shows "split_runs P (s @ c # t) = split_runs P s @ split_runs P t"
  using assms
proof (induction P s rule: split_runs.induct)
  case (1 P)
  then show ?case by simp
next
  case (2 P x xs)
  from "2.prems" have sep: "P c" "t \<noteq> []" "\<not> P (hd t)" by simp_all
  then have "dropWhile P t = t" by (cases t) simp_all
  then have split_sep: "split_runs P (c # t) = [] # split_runs P t"
    using sep(1) by simp
  show ?case
  proof (cases "P x")
    case True
    with "2.prems" have xs: "xs \<noteq> []" "\<not> P (last xs)" by (auto split: if_splits)
    then have d: "dropWhile P xs \<noteq> []" "\<not> P (last (dropWhile P xs))"
      using dropWhile_keeps_last [of xs P] by simp_all
    from xs have "last xs \<in> set xs" by simp
    then have "dropWhile P (xs @ c # t) = dropWhile P xs @ c # t"
      using xs(2) by (rule dropWhile_append1)
    then show ?thesis using True "2.IH"(1) [OF True d sep] by simp
  next
    case False
    show ?thesis
    proof (cases "xs = []")
      case True
      then show ?thesis using False split_sep by (simp add: Let_def)
    next
      case nonempty: False
      with "2.prems" have "\<not> P (last xs)" by simp
      with "2.IH"(2) [OF False nonempty _ sep]
      have "split_runs P (xs @ c # t) = split_runs P xs @ split_runs P t" by simp
      then show ?thesis using False split_runs_nonempty [of P xs] by (simp add: Let_def)
    qed
  qed
qed

lemma split_runs_hd: "s \<noteq> [] \<Longrightarrow> \<not> P (hd s) \<Longrightarrow> hd (split_runs P s) \<noteq> []"
  by (cases s) (simp_all add: Let_def)

lemma split_runs_tl: "s \<noteq> [] \<Longrightarrow> \<not> P (last s) \<Longrightarrow> [] \<notin> set (tl (split_runs P s))"
proof (induction P s rule: split_runs.induct)
  case (1 P)
  then show ?case by simp
next
  case (2 P x xs)
  show ?case
  proof (cases "P x")
    case True
    with "2.prems" have xs: "xs \<noteq> []" "\<not> P (last xs)" by (auto split: if_splits)
    let ?d = "dropWhile P xs"
    from xs have d: "?d \<noteq> []" "\<not> P (last ?d)"
      using dropWhile_keeps_last [of xs P] by simp_all
    have "\<not> P (hd ?d)" using d(1) by (rule hd_dropWhile)
    then have "hd (split_runs P ?d) \<noteq> []" using d(1) by (simp add: split_runs_hd)
    moreover have "[] \<notin> set (tl (split_runs P ?d))" using "2.IH"(1) [OF True d] .
    ultimately have "[] \<notin> set (split_runs P ?d)"
      using split_runs_nonempty [of P ?d] by (cases "split_runs P ?d") auto
    then show ?thesis using True by simp
  next
    case False
    show ?thesis
    proof (cases "xs = []")
      case True
      then show ?thesis using False by (simp add: Let_def)
    next
      case nonempty: False
      with "2.prems" have "\<not> P (last xs)" by simp
      with "2.IH"(2) [OF False] nonempty show ?thesis using False by (simp add: Let_def)
    qed
  qed
qed

lemma split_runs_no_empty:
  assumes "s \<noteq> []" "\<not> P (hd s)" "\<not> P (last s)"
  shows "[] \<notin> set (split_runs P s)"
  using split_runs_hd [of s P, OF assms(1,2)] split_runs_tl [of s P, OF assms(1,3)]
    split_runs_nonempty [of P s]
  by (cases "split_runs P s") auto

lemma join_ends:
  assumes "ws \<noteq> []" "\<forall>w\<in>set ws. w \<noteq> [] \<and> (\<forall>c\<in>set w. \<not> P c)"
  shows "join sep ws \<noteq> [] \<and> \<not> P (hd (join sep ws)) \<and> \<not> P (last (join sep ws))"
  using assms
proof (induction sep ws rule: join.induct)
  case (1 sep)
  then show ?case by simp
next
  case (2 sep w)
  then show ?case by (cases w) (auto simp: last_in_set)
next
  case (3 sep w v vs)
  then have "join sep (v # vs) \<noteq> [] \<and> \<not> P (last (join sep (v # vs)))" by simp
  moreover from "3.prems" have "w \<noteq> []" "\<not> P (hd w)" by (auto simp: hd_in_set)
  ultimately show ?case by simp
qed

lemma split_runs_join:
  assumes "ws \<noteq> []" "\<forall>w\<in>set ws. w \<noteq> [] \<and> (\<forall>c\<in>set w. \<not> P c)" "P c"
  shows "split_runs P (join [c] ws) = ws"
  using assms(1,2)
proof (induction "[c]" ws rule: join.induct)
  case 1
  then show ?case by simp
next
  case (2 w)
  then show ?case by (simp add: split_runs_word)
next
  case (3 w v vs)
  from "3.prems" have w: "w \<noteq> []" "\<forall>x\<in>set w. \<not> P x" by auto
  then have lw: "\<not> P (last w)" using last_in_set by blast
  from "3.prems" have rest: "\<forall>u\<in>set (v # vs). u \<noteq> [] \<and> (\<forall>x\<in>set u. \<not> P x)" by simp
  then have ends: "join [c] (v # vs) \<noteq> []" "\<not> P (hd (join [c] (v # vs)))"
    using join_ends [of "v # vs" P "[c]"] by simp_all
  have "split_runs P (w @ c # join [c] (v # vs)) = split_runs P w @ split_runs P (join [c] (v # vs))"
    using w(1) lw assms(3) ends by (rule split_runs_append)
  also have "split_runs P w = [w]" using w(2) by (rule split_runs_word)
  also have "split_runs P (join [c] (v # vs)) = v # vs" using "3.hyps" rest by simp
  finally show ?case by simp
qed

subsection \<open>Trimming\<close>

lemma space_is_space: "is_space CHR '' ''"
  by (simp add: is_space_def)

lemma dot_not_space: "\<not> is_space CHR ''.''"
  by (simp add: is_space_def)

lemma trim_clean: "clean s \<Longrightarrow> trim s = s"
proof -
  assume c: "clean s"
  then obtain x xs where s: "s = x # xs" and x: "\<not> is_space x" by (cases s) (auto simp: clean_def)
  have "dropWhile is_space s = s" using s x by simp
  moreover have "dropWhile is_space (rev s) = rev s"
    using c by (cases "rev s") (auto simp: clean_def last_rev [symmetric] simp del: last_rev)
  ultimately show ?thesis by (simp add: trim_def)
qed

lemma trim_hd: "trim s \<noteq> [] \<Longrightarrow> \<not> is_space (hd (trim s))"
proof -
  assume ne: "trim s \<noteq> []"
  let ?t = "dropWhile is_space s"
  let ?u = "dropWhile is_space (rev ?t)"
  from ne have u: "?u \<noteq> []" by (simp add: trim_def)
  have t: "?t \<noteq> []"
  proof
    assume "?t = []"
    then have "?u = []" by (simp only: rev.simps dropWhile.simps)
    with u show False by (simp only:)
  qed
  have "hd (trim s) = last ?u" by (simp add: trim_def hd_rev)
  also have "\<dots> = last (rev ?t)"
    using u by (metis append_Nil2 dropWhile_eq_Nil_conv last_appendR takeWhile_dropWhile_id)
  also have "\<dots> = hd ?t" by (simp add: last_rev)
  finally show ?thesis using hd_dropWhile [OF t] by simp
qed

lemma sentence_clean: "trim s \<noteq> [] \<Longrightarrow> clean (trim s @ ''.'')"
  using trim_hd [of s] by (simp add: clean_def dot_not_space)

lemma clean_words:
  assumes "clean s"
  shows "split_runs is_space s \<noteq> []"
    and "\<forall>w\<in>set (split_runs is_space s). w \<noteq> [] \<and> (\<forall>c\<in>set w. \<not> is_space c)"
proof -
  show "split_runs is_space s \<noteq> []" by (rule split_runs_nonempty)
  have "[] \<notin> set (split_runs is_space s)"
    using assms by (intro split_runs_no_empty) (simp_all add: clean_def)
  then show "\<forall>w\<in>set (split_runs is_space s). w \<noteq> [] \<and> (\<forall>c\<in>set w. \<not> is_space c)"
    using split_runs_free by metis
qed

lemma clean_append:
  assumes "clean s" "clean t"
  shows "clean (s @ '' '' @ t)"
    and "split_runs is_space (s @ '' '' @ t) = split_runs is_space s @ split_runs is_space t"
proof -
  show "clean (s @ '' '' @ t)" using assms by (simp add: clean_def)
  have "split_runs is_space (s @ CHR '' '' # t) = split_runs is_space s @ split_runs is_space t"
    using assms by (intro split_runs_append) (simp_all add: clean_def space_is_space)
  then show "split_runs is_space (s @ '' '' @ t) = split_runs is_space s @ split_runs is_space t"
    by simp
qed

subsection \<open>The overlap invariant\<close>

lemma chunk_words_createChunk [simp]:
  "chunk_words (createChunk ienv t file i) = split_runs is_space t"
  by (simp add: chunk_words_def createChunk_def)

lemma set_slice_from: "set (slice_from ws k) \<subseteq> set ws"
  by (simp add: slice_from_def set_drop_subset)

lemma overlap_text_words:
  assumes "clean cur"
  shows "(getOverlapText cur n = [] \<and> overlap_words n (split_runs is_space cur) = [])
         \<or> (clean (getOverlapText cur n)
             \<and> split_runs is_space (getOverlapText cur n) = overlap_words n (split_runs is_space cur))"
proof (cases "int (length (split_runs is_space cur)) \<le> n")
  case True
  then show ?thesis using assms by (simp add: getOverlapText_def overlap_words_def)
next
  case False
  let ?ws = "slice_from (split_runs is_space cur) (- n)"
  have ov: "getOverlapText cur n = join '' '' ?ws" "overlap_words n (split_runs is_space cur) = ?ws"
    using False by (simp_all add: getOverlapText_def overlap_words_def)
  show ?thesis
  proof (cases "?ws = []")
    case True
    then show ?thesis by (simp add: ov)
  next
    case nonempty: False
    have words: "\<forall>w\<in>set ?ws. w \<noteq> [] \<and> (\<forall>c\<in>set w. \<not> is_space c)"
      using clean_words(2) [OF assms] set_slice_from [of "split_runs is_space cur" "- n"] by blast
    have "join '' '' ?ws \<noteq> [] \<and> \<not> is_space (hd (join '' '' ?ws)) \<and> \<not> is_space (last (join '' '' ?ws))"
      using nonempty words by (rule join_ends)
    then have "clean (join '' '' ?ws)" by (simp add: clean_def)
    moreover have "split_runs is_space (join [CHR '' ''] ?ws) = ?ws"
      using nonempty words space_is_space by (rule split_runs_join)
    ultimately show ?thesis by (simp add: ov)
  qed
qed

lemma successively_snoc:
  "successively R (xs @ [a]) \<Longrightarrow> R a b \<Longrightarrow> successively R (xs @ [a, b])"
  by (simp add: successively_append_iff)

lemma successively_grow_last:
  assumes "successively R (xs @ [a])" "\<And>x. R x a \<Longrightarrow> R x b"
  shows "successively R (xs @ [b])"
  using assms by (auto simp: successively_append_iff)

lemma chunk_step_inv:
  assumes inv: "chunk_inv n st" and s: "trim s \<noteq> []"
  shows "chunk_inv n (chunk_step ienv file m n s st)"
proof -
  let ?sentence = "trim s @ ''.''"
  let ?R = "\<lambda>a b. prefix (overlap_words n a) b"
  have sc: "clean ?sentence" using s by (rule sentence_clean)
  show ?thesis
  proof (cases "currentWordCount st + int (length (split_runs is_space ?sentence)) > m
                \<and> length (currentChunk st) > 0")
    case True
    then have "currentChunk st \<noteq> []" by simp
    with inv have cur: "clean (currentChunk st)"
      and chain: "successively ?R (map chunk_words (done_chunks st) @ [split_runs is_space (currentChunk st)])"
      by (auto simp: chunk_inv_def)
    let ?ov = "getOverlapText (currentChunk st) n"
    let ?next = "?ov @ (if ?ov \<noteq> [] then '' '' else []) @ ?sentence"
    have step: "chunk_step ienv file m n s st =
        \<lparr>done_chunks = done_chunks st @ [createChunk ienv (trim (currentChunk st)) file (chunkIndex st)],
         currentChunk = ?next, currentWordCount = int (countWords ?next),
         chunkIndex = Suc (chunkIndex st)\<rparr>"
      unfolding chunk_step_def Let_def using True by (rule if_P)
    have nx: "clean ?next \<and> ?R (split_runs is_space (currentChunk st)) (split_runs is_space ?next)"
    proof (cases "?ov = []")
      case True
      then have "overlap_words n (split_runs is_space (currentChunk st)) = []"
        using overlap_text_words [OF cur, of n] by (auto simp: clean_def)
      then show ?thesis using True sc by simp
    next
      case False
      then have ovc: "clean ?ov"
        and ovw: "split_runs is_space ?ov = overlap_words n (split_runs is_space (currentChunk st))"
        using overlap_text_words [OF cur, of n] by auto
      have "clean (?ov @ '' '' @ ?sentence)"
        and "split_runs is_space (?ov @ '' '' @ ?sentence)
               = split_runs is_space ?ov @ split_runs is_space ?sentence"
        using ovc sc by (rule clean_append)+
      then show ?thesis using False ovw by simp
    qed
    have "successively ?R (map chunk_words (done_chunks st)
             @ [split_runs is_space (currentChunk st), split_runs is_space ?next])"
      using chain nx by (intro successively_snoc) simp_all
    then show ?thesis
      using nx by (simp add: chunk_inv_def step trim_clean [OF cur])
  next
    case False
    let ?next = "currentChunk st @ (if currentChunk st \<noteq> [] then '' '' else []) @ ?sentence"
    have step: "chunk_step ienv file m n s st =
        st\<lparr>currentChunk := ?next,
           currentWordCount := currentWordCount st + int (length (split_runs is_space ?sentence))\<rparr>"
      unfolding chunk_step_def Let_def using False by (rule if_not_P)
    show ?thesis
    proof (cases "currentChunk st = []")
      case True
      with inv have "done_chunks st = []" by (auto simp: chunk_inv_def clean_def)
      then show ?thesis using True sc by (simp add: chunk_inv_def step)
    next
      case nonempty: False
      with inv have cur: "clean (currentChunk st)"
        and chain: "successively ?R (map chunk_words (done_chunks st) @ [split_runs is_space (currentChunk st)])"
        by (auto simp: chunk_inv_def)
      have c: "clean (currentChunk st @ '' '' @ ?sentence)"
        and w: "split_runs is_space (currentChunk st @ '' '' @ ?sentence)
               = split_runs is_space (currentChunk st) @ split_runs is_space ?sentence"
        using cur sc by (rule clean_append)+
      have "successively ?R (map chunk_words (done_chunks st)
               @ [split_runs is_space (currentChunk st) @ split_runs is_space ?sentence])"
        using chain by (rule successively_grow_last) simp
      then show ?thesis
        using nonempty c w by (simp add: chunk_inv_def step)
    qed
  qed
qed

lemma chunk_fold_inv:
  "chunk_inv n st \<Longrightarrow> \<forall>s\<in>set ss. trim s \<noteq> []
     \<Longrightarrow> chunk_inv n (fold (chunk_step ienv file m n) ss st)"
  by (induction ss arbitrary: st) (simp_all add: chunk_step_inv)

lemma chunkText_chain:
  "successively (\<lambda>a b. prefix (overlap_words n a) b) (map chunk_words (chunkText ienv txt file m n))"
proof -
  let ?sentences = "filter (\<lambda>s. length (trim s) > 0) (split_runs is_sentence_end txt)"
  let ?init = "\<lparr>done_chunks = [], currentChunk = [], currentWordCount = 0, chunkIndex = 0\<rparr>"
  let ?st = "fold (chunk_step ienv file m n) ?sentences ?init"
  have "chunk_inv n ?init" by (simp add: chunk_inv_def)
  moreover have "\<forall>s\<in>set ?sentences. trim s \<noteq> []" by simp
  ultimately have inv: "chunk_inv n ?st" by (rule chunk_fold_inv)
  show ?thesis
  proof (cases "currentChunk ?st = []")
    case True
    with inv have "done_chunks ?st = []" by (auto simp: chunk_inv_def clean_def)
    then show ?thesis using True by (simp add: chunkText_def Let_def trim_def)
  next
    case False
    with inv have cur: "clean (currentChunk ?st)"
      and chain: "successively (\<lambda>a b. prefix (overlap_words n a) b)
                    (map chunk_words (done_chunks ?st) @ [split_runs is_space (currentChunk ?st)])"
      by (auto simp: chunk_inv_def)
    have "trim (currentChunk ?st) = currentChunk ?st" using cur by (rule trim_clean)
    then show ?thesis using False chain by (simp add: chunkText_def Let_def)
  qed
qed

lemma successively_nth:
  "successively R xs \<Longrightarrow> Suc i < length xs \<Longrightarrow> R (xs ! i) (xs ! Suc i)"
proof (induction xs arbitrary: i)
  case Nil
  then show ?case by simp
next
  case (Cons x xs)
  then show ?case by (cases i) (auto simp: successively_Cons hd_conv_nth)
qed

lemma overlap_words_take:
  assumes "prefix (overlap_words n a) b"
  shows "take (min (nat n) (length a)) b = drop (length a - nat n) a"
proof -
  from assms obtain r where b: "b = overlap_words n a @ r" by (auto simp: prefix_def)
  show ?thesis
  proof (cases "int (length a) \<le> n")
    case True
    then have "overlap_words n a = a" "min (nat n) (length a) = length a" "length a - nat n = 0"
      by (simp_all add: overlap_words_def)
    then show ?thesis by (simp add: b)
  next
    case False
    show ?thesis
    proof (cases "0 < n")
      case True
      with False have "overlap_words n a = drop (length a - nat n) a"
        by (simp add: overlap_words_def slice_from_def js_index_def nat_diff_distrib' max_def)
      moreover have "length (drop (length a - nat n) a) = nat n" using False True by simp
      moreover have "min (nat n) (length a) = nat n" using False by simp
      ultimately show ?thesis by (simp add: b)
    next
      case False
      then show ?thesis by simp
    qed
  qed
qed

text \<open>
  Claim C5, amended. For every text and every pair of parameters, each two consecutive
  chunks of \<open>chunkText\<close> share the last \<open>min(overlapWords, w)\<close> words of the earlier chunk,
  where \<open>w\<close> is the earlier chunk's number of words: these words are the first words of
  the later chunk. (A negative \<open>overlapWords\<close> counts as 0.) When the earlier chunk has at
  least \<open>overlapWords\<close> words, that is the claim's overlap of \<open>overlapWords\<close> words.
\<close>

theorem chunk_overlap:
  assumes "Suc i < length (chunkText ienv txt file m n)"
  shows "take (min (nat n) (length (chunk_words (chunkText ienv txt file m n ! i))))
              (chunk_words (chunkText ienv txt file m n ! Suc i))
         = drop (length (chunk_words (chunkText ienv txt file m n ! i)) - nat n)
              (chunk_words (chunkText ienv txt file m n ! i))"
proof -
  let ?ws = "map chunk_words (chunkText ienv txt file m n)"
  have "Suc i < length ?ws" using assms by simp
  with chunkText_chain [of n ienv "txt" "file" m]
  have "prefix (overlap_words n (?ws ! i)) (?ws ! Suc i)" by (rule successively_nth)
  then have "take (min (nat n) (length (?ws ! i))) (?ws ! Suc i) = drop (length (?ws ! i) - nat n) (?ws ! i)"
    by (rule overlap_words_take)
  then show ?thesis using assms by simp
qed

lemma demo_sentences:
  "filter (\<lambda>s. length (trim s) > 0) (split_runs is_sentence_end demo_text)
     = [''a'', '' b c d e'', '' f g h i'']"
  by (simp add: demo_text_def is_sentence_end_def trim_def is_space_def Let_def)

lemma demo_chunks:
  "map dc_text (chunkText demo_ienv demo_text demo_file 4 2)
     = [''a.'', ''a. b c d e.'', ''d e. f g h i.'']"
  unfolding chunkText_def demo_sentences
  by (simp add: chunk_step_def getOverlapText_def countWords_def createChunk_def trim_def
        is_space_def slice_from_def js_index_def Let_def)

lemma demo_words:
  "map chunk_words (chunkText demo_ienv demo_text demo_file 4 2)
     = [[''a.''], [''a.'', ''b'', ''c'', ''d'', ''e.''], [''d'', ''e.'', ''f'', ''g'', ''h'', ''i.'']]"
proof -
  have "map chunk_words (chunkText demo_ienv demo_text demo_file 4 2)
          = map (split_runs is_space) (map dc_text (chunkText demo_ienv demo_text demo_file 4 2))"
    by (simp add: chunk_words_def comp_def)
  then show ?thesis
    unfolding demo_chunks by (simp add: is_space_def Let_def)
qed

lemma demo_word_lists:
  "length (chunkText demo_ienv demo_text demo_file 4 2) = 3"
  "chunk_words (chunkText demo_ienv demo_text demo_file 4 2 ! 0) = [''a.'']"
  "chunk_words (chunkText demo_ienv demo_text demo_file 4 2 ! 1) = [''a.'', ''b'', ''c'', ''d'', ''e.'']"
  "chunk_words (chunkText demo_ienv demo_text demo_file 4 2 ! 2) = [''d'', ''e.'', ''f'', ''g'', ''h'', ''i.'']"
proof -
  let ?cs = "chunkText demo_ienv demo_text demo_file 4 2"
  have len: "length (map chunk_words ?cs) = 3" unfolding demo_words by simp
  then show l: "length ?cs = 3" by simp
  have nth: "chunk_words (?cs ! i) = map chunk_words ?cs ! i" if "i < 3" for i
    using that l by simp
  show "chunk_words (?cs ! 0) = [''a.'']"
    unfolding nth [of 0, simplified] demo_words by simp
  have "chunk_words (?cs ! Suc 0) = [''a.'', ''b'', ''c'', ''d'', ''e.'']"
    unfolding nth [of "Suc 0", simplified] demo_words by simp
  then show "chunk_words (?cs ! 1) = [''a.'', ''b'', ''c'', ''d'', ''e.'']" by simp
  show "chunk_words (?cs ! 2) = [''d'', ''e.'', ''f'', ''g'', ''h'', ''i.'']"
    unfolding nth [of 2, simplified] demo_words by simp
qed

theorem chunk_overlap_witness:
  "Suc 1 < length (chunkText demo_ienv demo_text demo_file 4 2)
   \<and> take (min (nat 2) (length (chunk_words (chunkText demo_ienv demo_text demo_file 4 2 ! 1))))
        (chunk_words (chunkText demo_ienv demo_text demo_file 4 2 ! Suc 1)) = [''d'', ''e.'']
   \<and> drop (length (chunk_words (chunkText demo_ienv demo_text demo_file 4 2 ! 1)) - nat 2)
        (chunk_words (chunkText demo_ienv demo_text demo_file 4 2 ! 1)) = [''d'', ''e.'']"
proof -
  have len: "Suc 1 < length (chunkText demo_ienv demo_text demo_file 4 2)"
    by (simp add: demo_word_lists)
  have last2: "drop (length (chunk_words (chunkText demo_ienv demo_text demo_file 4 2 ! 1)) - nat 2)
        (chunk_words (chunkText demo_ienv demo_text demo_file 4 2 ! 1)) = [''d'', ''e.'']"
    by (simp add: demo_word_lists [unfolded One_nat_def])
  from chunk_overlap [OF len] last2 len show ?thesis by simp
qed

text \<open>
  Claim C5 as stated fails when a chunk has fewer than \<open>overlapWords\<close> words. With chunks
  of at most 4 words and an overlap of 2, the text "a. b c d e. f g h i." gives three
  chunks; the first has the single word "a.", so it cannot share two words with the
  second, which is not the final chunk: the second starts with "a." and "b".
\<close>

theorem chunk_overlap_counterexample:
  "(2::int) < 4
   \<and> map dc_text (chunkText demo_ienv demo_text demo_file 4 2)
       = [''a.'', ''a. b c d e.'', ''d e. f g h i.'']
   \<and> chunk_words (chunkText demo_ienv demo_text demo_file 4 2 ! 0) = [''a.'']
   \<and> take 2 (chunk_words (chunkText demo_ienv demo_text demo_file 4 2 ! 1)) = [''a.'', ''b'']
   \<and> drop (length (chunk_words (chunkText demo_ienv demo_text demo_file 4 2 ! 0)) - 2)
        (chunk_words (chunkText demo_ienv demo_text demo_file 4 2 ! 0))
      \<noteq> take 2 (chunk_words (chunkText demo_ienv demo_text demo_file 4 2 ! 1))"
  by (simp add: demo_chunks demo_word_lists [unfolded One_nat_def])

end
